theory Spec2Isabelle
  imports Complex_Main "HOL-Library.Word" "HOL-Library.Signed_Division" "HOL-Library.Product_Order"
    "HOL-Library.Log_Nat"
begin

section \<open>Mesh flood fill: \<open>Geometry::bucket\<close> (Geometry.h)\<close>

text \<open>
  The part of \<open>class Geometry\<close> that \<open>bucket\<close> reads and writes. A \<open>DataTriangle\<close> is
  kept with its colour (\<open>size_t\<close>) and an opaque payload for its vertices and normal; the
  colour buffer holds \<open>GLuint\<close> entries, three per triangle. Of the CGAL polyhedron only what
  \<open>bucket\<close> and \<open>gatherNeighbours\<close> ask of it is kept: whether it is empty, and for each
  face handle the id of the facet across each of its three halfedges (\<open>None\<close> where
  \<open>opposite()->facet()\<close> is null, a border edge).
\<close>

datatype error = AssertionFailure | InvalidHandle | OutOfRange

record 'v DataTriangle =
  color :: nat
  shape :: 'v

type_synonym Face_handle = "nat option \<times> nat option \<times> nat option"

record PolyhedronData =
  indices :: "(nat \<times> nat \<times> nat) list"
  P_is_empty :: bool
  faceHandles :: "Face_handle list"
  closeCheck :: bool

record 'v Geometry =
  mTriangles :: "'v DataTriangle list"
  mVertexBuffer :: "'v list"
  mColorBuffer :: "32 word list"
  mNormalBuffer :: "'v list"
  mIndexBuffer :: "32 word list"
  activeColorIndex :: nat
  mPolyhedronData :: PolyhedronData

text \<open>
  \<open>setTriangleColor\<close>: three writes to the colour buffer (the colour cast to \<open>GLuint\<close>), then
  the triangle's own colour. Both assertions are branches of the model.
\<close>

definition setTriangleColor :: "nat \<Rightarrow> nat \<Rightarrow> 'v Geometry \<Rightarrow> error + 'v Geometry" where
  "setTriangleColor triangleIndex newColor g =
     (let vertexPosition = triangleIndex * 3 in
      if \<not> vertexPosition + 2 < length (mColorBuffer g) then Inl AssertionFailure
      else
        let newColorIndex = (word_of_nat newColor :: 32 word);
            cb = (mColorBuffer g)[vertexPosition := newColorIndex,
                                  vertexPosition + 1 := newColorIndex,
                                  vertexPosition + 2 := newColorIndex]
        in if \<not> triangleIndex < length (mTriangles g) then Inl AssertionFailure
           else Inr (g\<lparr>mColorBuffer := cb,
                       mTriangles := (mTriangles g)
                          [triangleIndex := (mTriangles g ! triangleIndex)\<lparr>color := newColor\<rparr>]\<rparr>))"

definition getTriangleColor :: "'v Geometry \<Rightarrow> nat \<Rightarrow> error + nat" where
  "getTriangleColor g triangleIndex =
     (if triangleIndex < length (mTriangles g) then Inr (color (mTriangles g ! triangleIndex))
      else Inl AssertionFailure)"

text \<open>
  \<open>gatherNeighbours\<close>: the array starts as \<open>{-1, -1, -1}\<close> and slot \<open>i\<close> receives the id of
  the facet across halfedge \<open>i\<close> when there is one. \<open>static_cast<int>\<close> keeps the low 32 bits
  of the id as a signed number. The assertion compares that \<open>int\<close> with the number of
  triangles, a \<open>size_t\<close>: a negative \<open>int\<close> is converted to a value beyond every size and
  fails it. The function is a member of \<open>Geometry\<close>, which is its first argument here. A
  face handle has three halfedges by its type, which is what the two other assertions of
  the function check.
\<close>

definition toInt :: "nat \<Rightarrow> int" where
  "toInt n = sint (word_of_nat n :: 32 word)"

definition neighbourId :: "'v Geometry \<Rightarrow> nat option \<Rightarrow> error + int" where
  "neighbourId g opp =
     (case opp of
        None \<Rightarrow> Inr (- 1)
      | Some triId \<Rightarrow>
          if 0 \<le> toInt triId \<and> nat (toInt triId) < length (mTriangles g)
          then Inr (toInt triId) else Inl AssertionFailure)"

definition gatherNeighbours :: "'v Geometry \<Rightarrow> nat \<Rightarrow> Face_handle list \<Rightarrow> error + int list" where
  "gatherNeighbours g triIndex fhs =
     (if \<not> triIndex < length fhs then Inl AssertionFailure
      else case fhs ! triIndex of
             (e0, e1, e2) \<Rightarrow>
               (case neighbourId g e0 of
                  Inl e \<Rightarrow> Inl e
                | Inr n0 \<Rightarrow>
                    (case neighbourId g e1 of
                       Inl e \<Rightarrow> Inl e
                     | Inr n1 \<Rightarrow>
                         (case neighbourId g e2 of
                            Inl e \<Rightarrow> Inl e
                          | Inr n2 \<Rightarrow> Inr [n0, n1, n2]))))"

text \<open>
  The body of the \<open>for\<close> loop of \<open>addNeighboursToQueue\<close> over the gathered neighbours:
  a border slot is skipped; a neighbour outside \<open>alreadyVisited\<close> is handed to the stopping
  functor together with the current face, and only when the functor accepts it is it pushed
  to the back of the queue and inserted into \<open>alreadyVisited\<close>. An id that passed the
  assertion of \<open>gatherNeighbours\<close> is not negative; \<open>nat\<close> is its conversion to \<open>size_t\<close>.
\<close>

fun visitNeighbours ::
  "(nat \<Rightarrow> nat \<Rightarrow> bool) \<Rightarrow> nat \<Rightarrow> int list \<Rightarrow> nat set \<times> nat list \<Rightarrow> nat set \<times> nat list" where
  "visitNeighbours stopFunctor currentVertex [] st = st"
| "visitNeighbours stopFunctor currentVertex (n # ns) (alreadyVisited, toVisit) =
     (if n = - 1 then visitNeighbours stopFunctor currentVertex ns (alreadyVisited, toVisit)
      else if nat n \<notin> alreadyVisited then
        (if stopFunctor (nat n) currentVertex
         then visitNeighbours stopFunctor currentVertex ns
                (insert (nat n) alreadyVisited, toVisit @ [nat n])
         else visitNeighbours stopFunctor currentVertex ns (alreadyVisited, toVisit))
      else visitNeighbours stopFunctor currentVertex ns (alreadyVisited, toVisit))"

definition addNeighboursToQueue ::
  "'v Geometry \<Rightarrow> nat \<Rightarrow> Face_handle list \<Rightarrow> nat set \<times> nat list \<Rightarrow> (nat \<Rightarrow> nat \<Rightarrow> bool)
     \<Rightarrow> error + nat set \<times> nat list" where
  "addNeighboursToQueue g currentVertex fhs st stopFunctor =
     (case gatherNeighbours g currentVertex fhs of
        Inl e \<Rightarrow> Inl e
      | Inr neighbours \<Rightarrow> Inr (visitNeighbours stopFunctor currentVertex neighbours st))"

text \<open>The ids stored in the face handles.\<close>

definition reachableIds :: "Face_handle list \<Rightarrow> nat set" where
  "reachableIds fhs = (\<Union>(e0, e1, e2) \<in> set fhs. set_option e0 \<union> set_option e1 \<union> set_option e2)"

lemma toInt_small: "n < 2 ^ 31 \<Longrightarrow> toInt n = int n"
  unfolding toInt_def sint_uint
  apply (simp add: unsigned_of_nat take_bit_nat_eq_self)
  apply (rule signed_take_bit_int_eq_self)
   apply simp_all
  done

lemma neighbourId_bound:
  "neighbourId g opp = Inr n \<Longrightarrow> n \<noteq> - 1 \<Longrightarrow> 0 \<le> n \<and> nat n < length (mTriangles g)"
  by (auto simp: neighbourId_def split: option.splits if_splits)

text \<open>Every neighbour that \<open>gatherNeighbours\<close> hands back is the index of a triangle.\<close>

lemma gatherNeighbours_bound:
  assumes "gatherNeighbours g c fhs = Inr ns" "n \<in> set ns" "n \<noteq> - 1"
  shows "nat n < length (mTriangles g)"
proof -
  obtain e0 e1 e2 where e: "fhs ! c = (e0, e1, e2)" by (cases "fhs ! c") auto
  from assms(1) e obtain n0 n1 n2 where
    n: "neighbourId g e0 = Inr n0" "neighbourId g e1 = Inr n1" "neighbourId g e2 = Inr n2"
    and ns: "ns = [n0, n1, n2]"
    by (auto simp: gatherNeighbours_def split: if_splits sum.splits)
  from assms(2) ns have "n = n0 \<or> n = n1 \<or> n = n2" by auto
  then show ?thesis using n assms(3) neighbourId_bound by blast
qed

lemma visitNeighbours_measure:
  "finite U \<Longrightarrow> \<forall>n \<in> set ns. n \<noteq> - 1 \<longrightarrow> nat n \<in> U \<Longrightarrow>
   visitNeighbours f c ns (vis, q) = (vis', q') \<Longrightarrow>
   2 * card (U - vis') + length q' \<le> 2 * card (U - vis) + length q"
proof (induction ns arbitrary: vis q)
  case Nil then show ?case by simp
next
  case (Cons n ns)
  show ?case
  proof (cases "n \<noteq> - 1 \<and> nat n \<notin> vis \<and> f (nat n) c")
    case True
    then have in_U: "nat n \<in> U" using Cons.prems(2) by simp
    have step: "visitNeighbours f c ns (insert (nat n) vis, q @ [nat n]) = (vis', q')"
      using Cons.prems(3) True by simp
    have "2 * card (U - vis') + length q' \<le> 2 * card (U - insert (nat n) vis) + length (q @ [nat n])"
      using Cons.IH[OF Cons.prems(1) _ step] Cons.prems(2) by simp
    moreover have "card (U - insert (nat n) vis) < card (U - vis)"
      using in_U True Cons.prems(1) by (intro psubset_card_mono) auto
    ultimately show ?thesis by simp
  next
    case False
    then have step: "visitNeighbours f c ns (vis, q) = (vis', q')"
      using Cons.prems(3) by (auto split: if_splits)
    show ?thesis using Cons.IH[OF Cons.prems(1) _ step] Cons.prems(2) by simp
  qed
qed

lemma setTriangleColor_frame:
  "setTriangleColor i c g = Inr g' \<Longrightarrow>
     mPolyhedronData g' = mPolyhedronData g \<and> activeColorIndex g' = activeColorIndex g
     \<and> length (mTriangles g') = length (mTriangles g)
     \<and> length (mColorBuffer g') = length (mColorBuffer g)"
  by (auto simp: setTriangleColor_def Let_def split: if_splits)

text \<open>
  The \<open>while\<close> loop of \<open>bucket\<close>. The stopping functor holds a pointer to the geometry, so
  it is a function of the geometry as it is when the functor is called: the current face is
  painted only after its neighbours were examined. The three assertions at the head of the
  loop body are branches of the model.
\<close>

function bucket_loop ::
  "('v Geometry \<Rightarrow> nat \<Rightarrow> nat \<Rightarrow> bool) \<Rightarrow> 'v Geometry \<Rightarrow> nat set \<Rightarrow> nat list
     \<Rightarrow> error + 'v Geometry" where
  "bucket_loop stopFunctor g alreadyVisited [] = Inr g"
| "bucket_loop stopFunctor g alreadyVisited (currentVertex # toVisit) =
     (if currentVertex \<notin> alreadyVisited then Inl AssertionFailure
      else if \<not> currentVertex < length (mTriangles g) then Inl AssertionFailure
      else if \<not> length toVisit < length (mTriangles g) then Inl AssertionFailure
      else
        case addNeighboursToQueue g currentVertex (faceHandles (mPolyhedronData g))
               (alreadyVisited, toVisit) (stopFunctor g) of
          Inl e \<Rightarrow> Inl e
        | Inr (alreadyVisited', toVisit') \<Rightarrow>
            (case setTriangleColor currentVertex (activeColorIndex g) g of
               Inl e \<Rightarrow> Inl e
             | Inr g' \<Rightarrow> bucket_loop stopFunctor g' alreadyVisited' toVisit'))"
  by pat_completeness auto

text \<open>
  Each round takes one face off the queue, and every face it adds leaves the finite set of
  triangle indices that are not yet in \<open>alreadyVisited\<close>: the loop ends.
\<close>

termination bucket_loop
proof (relation "measure (\<lambda>(stopFunctor, g, vis, q).
         2 * card ({..<length (mTriangles g)} - vis) + length q)", goal_cases)
  case 1
  show ?case by simp
next
  case (2 stopFunctor g vis cur q x2 vis' q' g')
  from 2 obtain ns where ns: "gatherNeighbours g cur (faceHandles (mPolyhedronData g)) = Inr ns"
    and v: "visitNeighbours (stopFunctor g) cur ns (vis, q) = (vis', q')"
    by (auto simp: addNeighboursToQueue_def split: sum.splits)
  have "\<forall>n \<in> set ns. n \<noteq> - 1 \<longrightarrow> nat n \<in> {..<length (mTriangles g)}"
    using gatherNeighbours_bound[OF ns] by simp
  then have "2 * card ({..<length (mTriangles g)} - vis') + length q'
        \<le> 2 * card ({..<length (mTriangles g)} - vis) + length q"
    using visitNeighbours_measure[OF finite_lessThan _ v] by blast
  moreover have "length (mTriangles g') = length (mTriangles g)"
    using 2 setTriangleColor_frame by blast
  ultimately show ?case by simp
qed

definition bucket ::
  "nat \<Rightarrow> ('v Geometry \<Rightarrow> nat \<Rightarrow> nat \<Rightarrow> bool) \<Rightarrow> 'v Geometry \<Rightarrow> error + 'v Geometry" where
  "bucket startTriangle stopFunctor g =
     (if P_is_empty (mPolyhedronData g) then Inr g
      else if length (indices (mPolyhedronData g)) \<noteq> length (mTriangles g)
        then Inl AssertionFailure
      else bucket_loop stopFunctor g {startTriangle} [startTriangle])"

declare bucket_loop.simps [simp del]

subsection \<open>A mesh the buffers agree with\<close>

text \<open>
  What the generators and \<open>buildPolyhedron\<close> establish and the assertions of \<open>bucket\<close>,
  \<open>gatherNeighbours\<close> and \<open>setTriangleColor\<close> rely on: one face handle and one index triple
  per triangle, three colour entries per triangle, and every facet id a triangle index
  that fits an \<open>int\<close>. \<open>painted\<close> says that a triangle and its three colour entries carry
  the active colour.
\<close>

definition wellFormed :: "'v Geometry \<Rightarrow> bool" where
  "wellFormed g \<longleftrightarrow>
     length (indices (mPolyhedronData g)) = length (mTriangles g)
   \<and> length (faceHandles (mPolyhedronData g)) = length (mTriangles g)
   \<and> length (mColorBuffer g) = 3 * length (mTriangles g)
   \<and> (\<forall>t \<in> reachableIds (faceHandles (mPolyhedronData g)). t < length (mTriangles g) \<and> t < 2 ^ 31)"

definition painted :: "'v Geometry \<Rightarrow> nat \<Rightarrow> bool" where
  "painted g t \<longleftrightarrow>
     color (mTriangles g ! t) = activeColorIndex g
   \<and> (\<forall>k < 3. mColorBuffer g ! (3 * t + k) = word_of_nat (activeColorIndex g))"

subsection \<open>Three faces around one vertex\<close>

text \<open>
  A fan of three triangles around vertex 0: every face touches the other two, and the edge
  opposite the shared vertex is a border. All faces start with colour 0; the active colour
  is 5. \<open>neverVisit\<close> rejects every pair; \<open>notFromSeed\<close> rejects face 2 only when it is
  offered from face 0. \<open>meshNoPolyhedron\<close> is the same mesh after a failed polyhedron build.
\<close>

definition mesh3 :: "unit Geometry" where
  "mesh3 = \<lparr> mTriangles = replicate 3 \<lparr>color = 0, shape = ()\<rparr>,
      mVertexBuffer = replicate 9 (),
      mColorBuffer = replicate 9 0,
      mNormalBuffer = replicate 9 (),
      mIndexBuffer = [0, 1, 2, 3, 4, 5, 6, 7, 8],
      activeColorIndex = 5,
      mPolyhedronData = \<lparr> indices = [(0, 1, 2), (0, 2, 3), (0, 3, 1)],
         P_is_empty = False,
         faceHandles = [(Some 2, None, Some 1), (Some 0, None, Some 2), (Some 1, None, Some 0)],
         closeCheck = False \<rparr> \<rparr>"

definition neverVisit :: "unit Geometry \<Rightarrow> nat \<Rightarrow> nat \<Rightarrow> bool" where
  "neverVisit g a b = False"

definition notFromSeed :: "unit Geometry \<Rightarrow> nat \<Rightarrow> nat \<Rightarrow> bool" where
  "notFromSeed g a b \<longleftrightarrow> \<not> (a = 2 \<and> b = 0)"

lemma reachableIds_mesh3: "reachableIds (faceHandles (mPolyhedronData mesh3)) = {0, 1, 2}"
  by (auto simp: reachableIds_def mesh3_def)

lemma wellFormed_mesh3: "wellFormed mesh3"
  unfolding wellFormed_def reachableIds_mesh3 by (simp add: mesh3_def)

definition meshNoPolyhedron :: "unit Geometry" where
  "meshNoPolyhedron = mesh3\<lparr>mPolyhedronData := (mPolyhedronData mesh3)\<lparr>P_is_empty := True\<rparr>\<rparr>"

definition isNeighbour :: "'v Geometry \<Rightarrow> Face_handle list \<Rightarrow> nat \<Rightarrow> nat \<Rightarrow> bool" where
  "isNeighbour g fhs currentVertex candidate =
     (case gatherNeighbours g currentVertex fhs of
        Inl e \<Rightarrow> False
      | Inr neighbours \<Rightarrow> int candidate \<in> set neighbours)"

subsection \<open>The seed is always painted\<close>

lemma visitNeighbours_inv:
  "visitNeighbours f c ns (vis, q) = (vis', q') \<Longrightarrow>
   \<forall>n \<in> set ns. n \<noteq> - 1 \<longrightarrow> nat n < N \<Longrightarrow>
   distinct q \<Longrightarrow> set q \<subseteq> vis \<Longrightarrow> \<forall>t \<in> vis. t < N \<Longrightarrow>
   distinct q' \<and> set q' \<subseteq> vis' \<and> (\<forall>t \<in> vis'. t < N) \<and> set q \<subseteq> set q' \<and> vis \<subseteq> vis'"
proof (induction ns arbitrary: vis q)
  case Nil then show ?case by simp
next
  case (Cons n ns)
  show ?case
  proof (cases "n \<noteq> - 1 \<and> nat n \<notin> vis \<and> f (nat n) c")
    case True
    then have step: "visitNeighbours f c ns (insert (nat n) vis, q @ [nat n]) = (vis', q')"
      using Cons.prems(1) by simp
    have d1: "distinct (q @ [nat n])" using True Cons.prems(3,4) by auto
    have d2: "set (q @ [nat n]) \<subseteq> insert (nat n) vis" using Cons.prems(4) by auto
    have d3: "\<forall>t \<in> insert (nat n) vis. t < N" using True Cons.prems(2,5) by auto
    have d4: "\<forall>n \<in> set ns. n \<noteq> - 1 \<longrightarrow> nat n < N" using Cons.prems(2) by simp
    have "distinct q' \<and> set q' \<subseteq> vis' \<and> (\<forall>t \<in> vis'. t < N)
          \<and> set (q @ [nat n]) \<subseteq> set q' \<and> insert (nat n) vis \<subseteq> vis'"
      by (rule Cons.IH[OF step d4 d1 d2 d3])
    then show ?thesis by simp
  next
    case False
    then have step: "visitNeighbours f c ns (vis, q) = (vis', q')"
      using Cons.prems(1) by (auto split: if_splits)
    show ?thesis using Cons.IH[OF step] Cons.prems(2-5) by simp
  qed
qed

lemma setTriangleColor_ok:
  assumes "t < length (mTriangles g)" "length (mColorBuffer g) = 3 * length (mTriangles g)"
  shows "\<exists>g'. setTriangleColor t (activeColorIndex g) g = Inr g' \<and> painted g' t
          \<and> (\<forall>s. painted g s \<longrightarrow> painted g' s)"
proof -
  have lt: "t * 3 + 2 < length (mColorBuffer g)" using assms by simp
  define g' where "g' = g\<lparr>mColorBuffer := (mColorBuffer g)[t * 3 := word_of_nat (activeColorIndex g),
                                  t * 3 + 1 := word_of_nat (activeColorIndex g),
                                  t * 3 + 2 := word_of_nat (activeColorIndex g)],
                       mTriangles := (mTriangles g)
                          [t := (mTriangles g ! t)\<lparr>color := activeColorIndex g\<rparr>]\<rparr>"
  have eq: "setTriangleColor t (activeColorIndex g) g = Inr g'"
    using lt assms(1) by (simp add: setTriangleColor_def Let_def g'_def)
  have p: "painted g' t"
    using lt assms(1) unfolding painted_def g'_def
    by (auto simp: nth_list_update less_Suc_eq numeral_3_eq_3 mult.commute)
  have "painted g' s" if ps: "painted g s" for s
  proof (cases "s = t")
    case True
    with p show ?thesis by simp
  next
    case False
    have ne: "3 * s + k \<noteq> t * 3 + j" if "k < 3" "j < 3" for k j
      using False that by arith
    have buf: "mColorBuffer g' ! (3 * s + k) = mColorBuffer g ! (3 * s + k)" if "k < 3" for k
      using ne[OF that, of 0] ne[OF that, of 1] ne[OF that, of 2]
      by (simp add: g'_def)
    have tri: "mTriangles g' ! s = mTriangles g ! s"
      using False by (simp add: g'_def)
    have act: "activeColorIndex g' = activeColorIndex g" by (simp add: g'_def)
    show ?thesis using ps buf tri act by (simp add: painted_def)
  qed
  with eq p show ?thesis by blast
qed

lemma bucket_loop_paints:
  "wellFormed g \<Longrightarrow> distinct q \<Longrightarrow> set q \<subseteq> vis \<Longrightarrow> \<forall>t \<in> vis. t < length (mTriangles g) \<Longrightarrow>
   s \<in> set q \<or> painted g s \<Longrightarrow>
   \<exists>g'. bucket_loop stopFunctor g vis q = Inr g' \<and> painted g' s
        \<and> activeColorIndex g' = activeColorIndex g"
proof (induction stopFunctor g vis q rule: bucket_loop.induct)
  case (1 stopFunctor g vis)
  then show ?case by (simp add: bucket_loop.simps)
next
  case (2 stopFunctor g vis cur q)
  let ?N = "length (mTriangles g)"
  let ?fhs = "faceHandles (mPolyhedronData g)"
  have wf: "wellFormed g" by fact
  have cur_vis: "cur \<in> vis" and cur_lt: "cur < ?N" using "2.prems" by auto
  have "length (cur # q) \<le> card {..<?N}"
    using "2.prems"(2,3,4) by (metis card_mono distinct_card finite_lessThan lessThan_iff subsetI subset_trans)
  then have q_lt: "length q < ?N" by simp
  obtain e0 e1 e2 where e: "?fhs ! cur = (e0, e1, e2)" by (cases "?fhs ! cur") auto
  have cur_fh: "cur < length ?fhs" using wf cur_lt by (simp add: wellFormed_def)
  then have "(e0, e1, e2) \<in> set ?fhs" using e by (metis nth_mem)
  then have ids: "set_option e0 \<union> set_option e1 \<union> set_option e2 \<subseteq> reachableIds ?fhs"
    unfolding reachableIds_def by blast
  have ok: "\<exists>n. neighbourId g opp = Inr n" if "set_option opp \<subseteq> reachableIds ?fhs" for opp
  proof (cases opp)
    case None
    then show ?thesis by (simp add: neighbourId_def)
  next
    case (Some t)
    with that wf have "t < ?N" "t < 2 ^ 31" by (auto simp: wellFormed_def)
    then show ?thesis using Some by (simp add: neighbourId_def toInt_small)
  qed
  from ok[of e0] ok[of e1] ok[of e2] ids obtain n0 n1 n2 where
    "neighbourId g e0 = Inr n0" "neighbourId g e1 = Inr n1" "neighbourId g e2 = Inr n2"
    by auto
  then have "\<exists>ns. gatherNeighbours g cur ?fhs = Inr ns"
    using cur_fh e by (simp add: gatherNeighbours_def)
  then obtain ns where gn: "gatherNeighbours g cur ?fhs = Inr ns" by blast
  obtain vis' q' where v: "visitNeighbours (stopFunctor g) cur ns (vis, q) = (vis', q')"
    by (cases "visitNeighbours (stopFunctor g) cur ns (vis, q)") auto
  have an: "addNeighboursToQueue g cur ?fhs (vis, q) (stopFunctor g) = Inr (vis', q')"
    by (simp add: addNeighboursToQueue_def gn v)
  have ns_lt: "\<forall>n \<in> set ns. n \<noteq> - 1 \<longrightarrow> nat n < ?N"
    using gatherNeighbours_bound[OF gn] by blast
  have inv': "distinct q' \<and> set q' \<subseteq> vis' \<and> (\<forall>t \<in> vis'. t < ?N) \<and> set q \<subseteq> set q' \<and> vis \<subseteq> vis'"
    using visitNeighbours_inv[OF v ns_lt] "2.prems"(2,3,4) by simp
  obtain g' where st: "setTriangleColor cur (activeColorIndex g) g = Inr g'"
    and p_cur: "painted g' cur" and p_keep: "\<forall>s. painted g s \<longrightarrow> painted g' s"
    using setTriangleColor_ok[OF cur_lt] wf by (auto simp: wellFormed_def)
  have fr: "mPolyhedronData g' = mPolyhedronData g" "length (mTriangles g') = ?N"
    "length (mColorBuffer g') = length (mColorBuffer g)" "activeColorIndex g' = activeColorIndex g"
    using setTriangleColor_frame[OF st] by auto
  have wf': "wellFormed g'" using wf fr by (simp add: wellFormed_def)
  have s': "s \<in> set q' \<or> painted g' s"
    using "2.prems"(5) p_cur p_keep inv' by auto
  have "\<exists>g''. bucket_loop stopFunctor g' vis' q' = Inr g'' \<and> painted g'' s
          \<and> activeColorIndex g'' = activeColorIndex g"
    using "2.IH"[OF _ _ _ an refl st wf'] cur_vis cur_lt q_lt inv' fr s' by simp
  then show ?case using cur_vis cur_lt q_lt an st by (simp add: bucket_loop.simps)
qed

text \<open>
  C9, as the code has it. \<open>bucket\<close> paints the seed when the polyhedron is not empty: for a
  start triangle that is an index of a well-formed mesh it then returns normally, and the
  start triangle and its three colour-buffer entries carry the active colour, whatever the
  stopping functor answers (the functor is never asked about the seed). That the mesh has
  triangles is not enough; the guard at the head of \<open>bucket\<close> looks at the polyhedron.
\<close>

theorem bucket_paints_start:
  assumes "\<not> P_is_empty (mPolyhedronData g)"
    and "startTriangle < length (mTriangles g)"
    and "wellFormed g"
  shows "\<exists>g'. bucket startTriangle stopFunctor g = Inr g'
           \<and> color (mTriangles g' ! startTriangle) = activeColorIndex g
           \<and> (\<forall>k < 3. mColorBuffer g' ! (3 * startTriangle + k) = word_of_nat (activeColorIndex g))"
proof -
  have "\<exists>g'. bucket_loop stopFunctor g {startTriangle} [startTriangle] = Inr g'
          \<and> painted g' startTriangle \<and> activeColorIndex g' = activeColorIndex g"
    using assms(2,3) by (intro bucket_loop_paints) auto
  moreover have "bucket startTriangle stopFunctor g
                   = bucket_loop stopFunctor g {startTriangle} [startTriangle]"
    using assms(1,3) by (simp add: bucket_def wellFormed_def)
  ultimately show ?thesis by (auto simp: painted_def)
qed

theorem bucket_paints_start_witness:
  "\<not> P_is_empty (mPolyhedronData mesh3) \<and> 0 < length (mTriangles mesh3) \<and> wellFormed mesh3
   \<and> (\<exists>g'. bucket 0 neverVisit mesh3 = Inr g'
         \<and> color (mTriangles g' ! 0) = activeColorIndex mesh3
         \<and> (\<forall>k < 3. mColorBuffer g' ! (3 * 0 + k) = word_of_nat (activeColorIndex mesh3)))"
proof -
  have h1: "\<not> P_is_empty (mPolyhedronData mesh3)" by (simp add: mesh3_def)
  have h2: "0 < length (mTriangles mesh3)" by (simp add: mesh3_def)
  show ?thesis
    using bucket_paints_start[OF h1 h2 wellFormed_mesh3, of neverVisit] h1 h2 wellFormed_mesh3
    by simp
qed

text \<open>With the functor that rejects everything, the seed is the only face painted.\<close>

lemma bucket_neverVisit_mesh3:
  "bucket 0 neverVisit mesh3 =
     Inr (mesh3\<lparr>mColorBuffer := [5, 5, 5, 0, 0, 0, 0, 0, 0],
                mTriangles := [\<lparr>color = 5, shape = ()\<rparr>, \<lparr>color = 0, shape = ()\<rparr>,
                               \<lparr>color = 0, shape = ()\<rparr>]\<rparr>)"
  by (simp add: bucket_def mesh3_def addNeighboursToQueue_def gatherNeighbours_def neighbourId_def
      toInt_def setTriangleColor_def neverVisit_def bucket_loop.simps numeral_3_eq_3
      eval_nat_numeral Let_def)

lemma wellFormed_meshNoPolyhedron: "wellFormed meshNoPolyhedron"
  using wellFormed_mesh3 by (simp add: wellFormed_def meshNoPolyhedron_def)

text \<open>
  C9 as stated fails: \<open>meshNoPolyhedron\<close> has three triangles, its buffers agree with them and
  the start index 0 is within bounds, but its polyhedron is empty (the build failed), and
  \<open>bucket\<close> returns it as it was: triangle 0 keeps colour 0 while the active colour is 5.
\<close>

theorem bucket_leaves_start_without_polyhedron:
  "length (mTriangles meshNoPolyhedron) = 3
   \<and> wellFormed meshNoPolyhedron
   \<and> bucket 0 neverVisit meshNoPolyhedron = Inr meshNoPolyhedron
   \<and> color (mTriangles meshNoPolyhedron ! 0) = 0
   \<and> mColorBuffer meshNoPolyhedron = [0, 0, 0, 0, 0, 0, 0, 0, 0]
   \<and> activeColorIndex meshNoPolyhedron = 5"
  using wellFormed_meshNoPolyhedron
  by (simp add: bucket_def meshNoPolyhedron_def mesh3_def numeral_3_eq_3 eval_nat_numeral)

subsection \<open>An empty polyhedron\<close>

text \<open>
  C10. When the polyhedron is empty, \<open>bucket\<close> returns at once with the geometry as it was:
  every triangle, the colour buffer and all other fields are unchanged, for every start
  triangle and every stopping functor.
\<close>

theorem bucket_empty_polyhedron_noop:
  "P_is_empty (mPolyhedronData g) \<Longrightarrow> bucket startTriangle stopFunctor g = Inr g"
  by (simp add: bucket_def)

theorem bucket_empty_polyhedron_noop_witness:
  "P_is_empty (mPolyhedronData meshNoPolyhedron)
   \<and> bucket 7 notFromSeed meshNoPolyhedron = Inr meshNoPolyhedron"
proof -
  have h: "P_is_empty (mPolyhedronData meshNoPolyhedron)"
    by (simp add: meshNoPolyhedron_def)
  show ?thesis using bucket_empty_polyhedron_noop[OF h, of 7 notFromSeed] h by simp
qed

subsection \<open>A neighbour the functor rejects\<close>

lemma visitNeighbours_rejects:
  "visitNeighbours f c ns (vis, q) = (vis', q') \<Longrightarrow> n \<notin> vis \<Longrightarrow> \<not> f n c \<Longrightarrow>
   n \<notin> vis' \<and> count_list q' n = count_list q n"
proof (induction ns arbitrary: vis q)
  case Nil then show ?case by simp
next
  case (Cons m ms)
  show ?case
  proof (cases "m \<noteq> - 1 \<and> nat m \<notin> vis \<and> f (nat m) c")
    case True
    then have step: "visitNeighbours f c ms (insert (nat m) vis, q @ [nat m]) = (vis', q')"
      using Cons.prems(1) by simp
    from True Cons.prems(3) have ne: "nat m \<noteq> n" by auto
    then have "n \<notin> insert (nat m) vis" using Cons.prems(2) by simp
    from Cons.IH[OF step this Cons.prems(3)] ne show ?thesis by simp
  next
    case False
    then have step: "visitNeighbours f c ms (vis, q) = (vis', q')"
      using Cons.prems(1) by (auto split: if_splits)
    from Cons.IH[OF step Cons.prems(2,3)] show ?thesis .
  qed
qed

lemma visitNeighbours_mono:
  "visitNeighbours f c ns (vis, q) = (vis', q') \<Longrightarrow> vis \<subseteq> vis' \<and> set q \<subseteq> set q'"
proof (induction ns arbitrary: vis q)
  case Nil then show ?case by simp
next
  case (Cons m ms)
  show ?case
  proof (cases "m \<noteq> - 1 \<and> nat m \<notin> vis \<and> f (nat m) c")
    case True
    then have step: "visitNeighbours f c ms (insert (nat m) vis, q @ [nat m]) = (vis', q')"
      using Cons.prems(1) by simp
    from Cons.IH[OF step] show ?thesis by simp
  next
    case False
    then have step: "visitNeighbours f c ms (vis, q) = (vis', q')"
      using Cons.prems(1) by (auto split: if_splits)
    from Cons.IH[OF step] show ?thesis .
  qed
qed

lemma visitNeighbours_accepts:
  "visitNeighbours f c ns (vis, q) = (vis', q') \<Longrightarrow> int n \<in> set ns \<Longrightarrow> f n c \<Longrightarrow>
   n \<notin> vis \<or> n \<in> set q \<Longrightarrow> n \<in> vis' \<and> n \<in> set q'"
proof (induction ns arbitrary: vis q)
  case Nil then show ?case by simp
next
  case (Cons m ms)
  show ?case
  proof (cases "m \<noteq> - 1 \<and> nat m \<notin> vis \<and> f (nat m) c")
    case True
    then have step: "visitNeighbours f c ms (insert (nat m) vis, q @ [nat m]) = (vis', q')"
      using Cons.prems(1) by simp
    note mono = visitNeighbours_mono[OF step]
    show ?thesis
    proof (cases "m = int n")
      case True
      then show ?thesis using mono by auto
    next
      case False
      then have mem: "int n \<in> set ms" using Cons.prems(2) by simp
      have "n \<notin> insert (nat m) vis \<or> n \<in> set (q @ [nat m])" using Cons.prems(4) by auto
      from Cons.IH[OF step mem Cons.prems(3) this] show ?thesis .
    qed
  next
    case False
    then have step: "visitNeighbours f c ms (vis, q) = (vis', q')"
      using Cons.prems(1) by (auto split: if_splits)
    note mono = visitNeighbours_mono[OF step]
    show ?thesis
    proof (cases "m = int n")
      case True
      with False Cons.prems(3) have "n \<in> vis" by auto
      with Cons.prems(4) have "n \<in> set q" by simp
      with \<open>n \<in> vis\<close> mono show ?thesis by auto
    next
      case False
      then have mem: "int n \<in> set ms" using Cons.prems(2) by simp
      from Cons.IH[OF step mem Cons.prems(3,4)] show ?thesis .
    qed
  qed
qed

text \<open>
  C4, as the code has it. While one face is processed, a neighbour outside \<open>alreadyVisited\<close>
  that the functor rejects is neither inserted into \<open>alreadyVisited\<close> nor pushed to the queue,
  and one that the functor accepts is inserted and pushed. The rejected neighbour is therefore
  still unmarked when a later face lists it, and the functor is asked again with that face as
  the current one.
\<close>

theorem rejected_neighbour_not_marked:
  assumes "addNeighboursToQueue g currentVertex fhs (alreadyVisited, toVisit) stopFunctor
             = Inr (alreadyVisited', toVisit')"
    and "candidate \<notin> alreadyVisited"
    and "isNeighbour g fhs currentVertex candidate"
  shows "(\<not> stopFunctor candidate currentVertex \<longrightarrow>
            candidate \<notin> alreadyVisited' \<and> count_list toVisit' candidate = count_list toVisit candidate)
       \<and> (stopFunctor candidate currentVertex \<longrightarrow>
            candidate \<in> alreadyVisited' \<and> candidate \<in> set toVisit')"
proof -
  from assms(1) obtain ns where ns: "gatherNeighbours g currentVertex fhs = Inr ns"
    and v: "visitNeighbours stopFunctor currentVertex ns (alreadyVisited, toVisit)
              = (alreadyVisited', toVisit')"
    by (auto simp: addNeighboursToQueue_def split: sum.splits)
  from assms(3) ns have mem: "int candidate \<in> set ns" by (simp add: isNeighbour_def)
  show ?thesis
    using visitNeighbours_rejects[OF v assms(2)] visitNeighbours_accepts[OF v mem] assms(2)
    by blast
qed

theorem rejected_neighbour_not_marked_witness:
  "addNeighboursToQueue mesh3 0 (faceHandles (mPolyhedronData mesh3)) ({0}, []) (notFromSeed mesh3)
     = Inr ({0, 1}, [1])
   \<and> 2 \<notin> {0::nat} \<and> isNeighbour mesh3 (faceHandles (mPolyhedronData mesh3)) 0 2
   \<and> \<not> notFromSeed mesh3 2 0 \<and> 2 \<notin> {0, 1::nat} \<and> count_list [1::nat] 2 = count_list [] 2
   \<and> isNeighbour mesh3 (faceHandles (mPolyhedronData mesh3)) 0 1 \<and> notFromSeed mesh3 1 0
   \<and> 1 \<in> {0, 1::nat} \<and> 1 \<in> set [1::nat]"
proof -
  have a: "addNeighboursToQueue mesh3 0 (faceHandles (mPolyhedronData mesh3)) ({0}, []) (notFromSeed mesh3)
     = Inr ({0, 1}, [1])"
    by (simp add: mesh3_def addNeighboursToQueue_def gatherNeighbours_def neighbourId_def
        toInt_def notFromSeed_def insert_commute)
  have n2: "isNeighbour mesh3 (faceHandles (mPolyhedronData mesh3)) 0 2"
    and n1: "isNeighbour mesh3 (faceHandles (mPolyhedronData mesh3)) 0 1"
    by (simp_all add: isNeighbour_def mesh3_def gatherNeighbours_def neighbourId_def toInt_def)
  have v: "2 \<notin> {0::nat}" "1 \<notin> {0::nat}" by simp_all
  show ?thesis
    using rejected_neighbour_not_marked[OF a v(1) n2] rejected_neighbour_not_marked[OF a v(2) n1]
      a n1 n2
    by (simp add: notFromSeed_def)
qed

text \<open>
  C4 as stated fails: from seed 0 the functor rejects face 2 (offered from face 0), face 1 is
  queued, and when face 1 is processed the functor is asked about face 2 again, accepts it,
  and face 2 is queued and painted in the same call.
\<close>

theorem rejected_neighbour_painted_later:
  "\<not> notFromSeed mesh3 2 0
   \<and> isNeighbour mesh3 (faceHandles (mPolyhedronData mesh3)) 0 2
   \<and> addNeighboursToQueue mesh3 0 (faceHandles (mPolyhedronData mesh3)) ({0}, []) (notFromSeed mesh3)
        = Inr ({0, 1}, [1])
   \<and> color (mTriangles mesh3 ! 2) = 0
   \<and> bucket 0 notFromSeed mesh3 =
        Inr (mesh3\<lparr>mColorBuffer := [5, 5, 5, 5, 5, 5, 5, 5, 5],
                   mTriangles := [\<lparr>color = 5, shape = ()\<rparr>, \<lparr>color = 5, shape = ()\<rparr>,
                                  \<lparr>color = 5, shape = ()\<rparr>]\<rparr>)"
  by (simp add: bucket_def mesh3_def addNeighboursToQueue_def gatherNeighbours_def neighbourId_def
      toInt_def isNeighbour_def setTriangleColor_def notFromSeed_def bucket_loop.simps
      numeral_3_eq_3 eval_nat_numeral Let_def insert_commute)

section \<open>Circle discretisation: \<open>polygonFromCircle\<close> (TriangleDetail.cpp)\<close>

text \<open>
  Points of the exact kernel are pairs of rationals and a polygon is its vertex cycle. The
  angles are doubles in the source; the loop only compares them, so they are values of any
  linear order here, and what the floating-point part computes is handed in: the number of
  samples \<open>vertexCount\<close>, the angle \<open>circleCoord i\<close> and the projected point
  \<open>circlePoint i\<close> of sample \<open>i\<close>, and the crossings of the circle with the three triangle
  edges, each with its angle, in the order the edge loop finds them.
\<close>

type_synonym Point2 = "rat \<times> rat"
type_synonym Polygon = "Point2 list"

text \<open>
  \<open>getCircleSharedPoints\<close> ends by sorting the crossings by angle. \<open>std::sort\<close> may order
  entries of equal angle either way; insertion sort gives one of its results.
\<close>

definition getCircleSharedPoints :: "(Point2 \<times> 'a::linorder) list \<Rightarrow> (Point2 \<times> 'a) list" where
  "getCircleSharedPoints edgeCrossings = sort_key snd edgeCrossings"

text \<open>
  The inner \<open>while\<close> loop: shared points whose angle is at most the sample's angle are
  consumed, and one is pushed only when its angle differs from the sample's.
\<close>

fun addSharedBefore ::
  "(Point2 \<times> 'a::linorder) list \<Rightarrow> 'a \<Rightarrow> Polygon \<Rightarrow> (Point2 \<times> 'a) list \<times> Polygon" where
  "addSharedBefore [] circleCoord pgn = ([], pgn)"
| "addSharedBefore (sp # rest) circleCoord pgn =
     (if snd sp \<le> circleCoord
      then addSharedBefore rest circleCoord (if snd sp \<noteq> circleCoord then pgn @ [fst sp] else pgn)
      else (sp # rest, pgn))"

text \<open>
  The \<open>for\<close> loop over the samples, followed by the loop that appends the shared points
  that are left; then the three closing assertions, taken as one predicate of the polygon.
\<close>

fun circleLoop ::
  "(nat \<Rightarrow> 'a::linorder) \<Rightarrow> (nat \<Rightarrow> Point2) \<Rightarrow> nat list \<Rightarrow> (Point2 \<times> 'a) list \<Rightarrow> Polygon \<Rightarrow> Polygon" where
  "circleLoop circleCoord circlePoint [] sharedPoints pgn = pgn @ map fst sharedPoints"
| "circleLoop circleCoord circlePoint (i # is) sharedPoints pgn =
     (case addSharedBefore sharedPoints (circleCoord i) pgn of
        (sharedPoints', pgn') \<Rightarrow>
          circleLoop circleCoord circlePoint is sharedPoints' (pgn' @ [circlePoint i]))"

definition polygonFromCircle ::
  "(Polygon \<Rightarrow> bool) \<Rightarrow> nat \<Rightarrow> (nat \<Rightarrow> 'a::linorder) \<Rightarrow> (nat \<Rightarrow> Point2) \<Rightarrow> (Point2 \<times> 'a) list
     \<Rightarrow> error + Polygon" where
  "polygonFromCircle is_simple_ccw_convex vertexCount circleCoord circlePoint edgeCrossings =
     (let sharedPoints = getCircleSharedPoints edgeCrossings;
          pgn = circleLoop circleCoord circlePoint [0..<vertexCount] sharedPoints []
      in if is_simple_ccw_convex pgn then Inr pgn else Inl AssertionFailure)"

lemma addSharedBefore_eq:
  "addSharedBefore sp c pgn =
     (dropWhile (\<lambda>e. snd e \<le> c) sp,
      pgn @ map fst (filter (\<lambda>e. snd e \<noteq> c) (takeWhile (\<lambda>e. snd e \<le> c) sp)))"
  by (induction sp arbitrary: pgn) auto

lemma sorted_dropWhile_gt:
  assumes "sorted (map snd sp)" "e \<in> set (dropWhile (\<lambda>e. snd e \<le> c) sp)"
  shows "c < snd (e :: 'p \<times> 'a::linorder)"
  using assms
proof (induction sp)
  case Nil then show ?case by simp
next
  case (Cons x xs)
  show ?case
  proof (cases "snd x \<le> c")
    case True
    with Cons show ?thesis by simp
  next
    case False
    with Cons.prems have "e \<in> set (x # xs)" by simp
    with Cons.prems(1) have "snd x \<le> snd e" by auto
    with False show ?thesis by simp
  qed
qed

lemma circleLoop_subset:
  "sorted (map snd sp) \<Longrightarrow> sorted_wrt (<) (map coord is) \<Longrightarrow>
   set (circleLoop coord pt is sp pgn)
     \<subseteq> set pgn \<union> pt ` set is \<union> {q. \<exists>a. (q, a) \<in> set sp \<and> a \<notin> coord ` set is}"
proof (induction "is" arbitrary: sp pgn)
  case Nil
  then show ?case by force
next
  case (Cons i "is")
  let ?c = "coord i"
  let ?sp' = "dropWhile (\<lambda>e. snd e \<le> ?c) sp"
  let ?pushed = "map fst (filter (\<lambda>e. snd e \<noteq> ?c) (takeWhile (\<lambda>e. snd e \<le> ?c) sp))"
  have eq: "circleLoop coord pt (i # is) sp pgn = circleLoop coord pt is ?sp' ((pgn @ ?pushed) @ [pt i])"
    by (simp add: addSharedBefore_eq)
  have srt: "sorted (map snd ?sp')"
    using Cons.prems(1) by (metis sorted_wrt_dropWhile sorted_map sorted_wrt_map)
  have inc: "sorted_wrt (<) (map coord is)" and later: "\<forall>j \<in> set is. ?c < coord j"
    using Cons.prems(2) by auto
  have IH: "set (circleLoop coord pt is ?sp' ((pgn @ ?pushed) @ [pt i]))
     \<subseteq> set ((pgn @ ?pushed) @ [pt i]) \<union> pt ` set is
        \<union> {q. \<exists>a. (q, a) \<in> set ?sp' \<and> a \<notin> coord ` set is}"
    by (rule Cons.IH[OF srt inc])
  have pushed: "set ?pushed \<subseteq> {q. \<exists>a. (q, a) \<in> set sp \<and> a \<notin> coord ` set (i # is)}"
  proof
    fix q assume "q \<in> set ?pushed"
    then obtain a where e: "(q, a) \<in> set (takeWhile (\<lambda>e. snd e \<le> ?c) sp)" and ne: "a \<noteq> ?c"
      by auto
    from e have "(q, a) \<in> set sp" "a \<le> ?c" by (auto dest: set_takeWhileD)
    with ne later have "a \<notin> coord ` set (i # is)" by auto
    with \<open>(q, a) \<in> set sp\<close> show "q \<in> {q. \<exists>a. (q, a) \<in> set sp \<and> a \<notin> coord ` set (i # is)}" by blast
  qed
  have rest: "{q. \<exists>a. (q, a) \<in> set ?sp' \<and> a \<notin> coord ` set is}
               \<subseteq> {q. \<exists>a. (q, a) \<in> set sp \<and> a \<notin> coord ` set (i # is)}"
  proof
    fix q assume "q \<in> {q. \<exists>a. (q, a) \<in> set ?sp' \<and> a \<notin> coord ` set is}"
    then obtain a where e: "(q, a) \<in> set ?sp'" and n: "a \<notin> coord ` set is" by blast
    from sorted_dropWhile_gt[OF Cons.prems(1) e] have "?c < a" by simp
    moreover from e have "(q, a) \<in> set sp" by (auto dest: set_dropWhileD)
    ultimately show "q \<in> {q. \<exists>a. (q, a) \<in> set sp \<and> a \<notin> coord ` set (i # is)}"
      using n by auto
  qed
  define A where "A = set (circleLoop coord pt is ?sp' ((pgn @ ?pushed) @ [pt i]))"
  define B where "B = {q. \<exists>a. (q, a) \<in> set ?sp' \<and> a \<notin> coord ` set is}"
  define C where "C = {q. \<exists>a. (q, a) \<in> set sp \<and> a \<notin> coord ` set (i # is)}"
  define P where "P = set ?pushed"
  have "A \<subseteq> (set pgn \<union> P \<union> {pt i}) \<union> pt ` set is \<union> B"
    using IH unfolding A_def B_def P_def by (simp only: set_append list.set Un_insert_right Un_empty_right) 
  moreover have "P \<subseteq> C" "B \<subseteq> C" using pushed rest unfolding P_def B_def C_def by blast+
  ultimately have "A \<subseteq> set pgn \<union> pt ` set (i # is) \<union> C" by auto
  then show ?case unfolding eq A_def C_def .
qed

lemma circleLoop_keeps: "set pgn \<union> pt ` set is \<subseteq> set (circleLoop coord pt is sp pgn)"
proof (induction "is" arbitrary: sp pgn)
  case Nil
  then show ?case by simp
next
  case (Cons i "is")
  define pgn' where
    "pgn' = (pgn @ map fst (filter (\<lambda>e. snd e \<noteq> coord i) (takeWhile (\<lambda>e. snd e \<le> coord i) sp))) @ [pt i]"
  have eq: "circleLoop coord pt (i # is) sp pgn
              = circleLoop coord pt is (dropWhile (\<lambda>e. snd e \<le> coord i) sp) pgn'"
    by (simp add: addSharedBefore_eq pgn'_def)
  have "set pgn' \<union> pt ` set is \<subseteq> set (circleLoop coord pt (i # is) sp pgn)"
    unfolding eq by (rule Cons.IH)
  moreover have "set pgn \<union> {pt i} \<subseteq> set pgn'" by (auto simp: pgn'_def)
  ultimately show ?case by auto
qed


text \<open>
  What the loop produces, sample by sample. \<open>crossingsBetween lo hi\<close> are the crossing points
  whose angle lies strictly between the two bounds (a missing bound does not restrict), in the
  order of \<open>getCircleSharedPoints\<close>; \<open>angleBefore circleCoord i\<close> is the angle of the sample
  before sample \<open>i\<close>, and nothing for the first sample.
\<close>

definition crossingsBetween :: "'a::linorder option \<Rightarrow> 'a option \<Rightarrow> (Point2 \<times> 'a) list \<Rightarrow> Polygon" where
  "crossingsBetween lo hi sharedPoints =
     map fst (filter (\<lambda>e. (case lo of None \<Rightarrow> True | Some l \<Rightarrow> l < snd e)
                           \<and> (case hi of None \<Rightarrow> True | Some h \<Rightarrow> snd e < h)) sharedPoints)"

definition angleBefore :: "(nat \<Rightarrow> 'a) \<Rightarrow> nat \<Rightarrow> 'a option" where
  "angleBefore circleCoord i = (if i = 0 then None else Some (circleCoord (i - 1)))"

lemma sorted_takeWhile_filter:
  "sorted (map snd sp) \<Longrightarrow> takeWhile (\<lambda>e. snd e \<le> c) sp = filter (\<lambda>e. snd e \<le> (c::'a::linorder)) sp"
proof (induction sp)
  case Nil then show ?case by simp
next
  case (Cons x xs)
  show ?case
  proof (cases "snd x \<le> c")
    case True
    then show ?thesis using Cons by simp
  next
    case False
    have "\<forall>e \<in> set xs. \<not> snd e \<le> c" using Cons.prems False by auto
    then have "filter (\<lambda>e. snd e \<le> c) xs = []" by (simp add: filter_empty_conv)
    then show ?thesis using False by simp
  qed
qed

lemma sorted_dropWhile_filter:
  "sorted (map snd sp) \<Longrightarrow> dropWhile (\<lambda>e. snd e \<le> c) sp = filter (\<lambda>e. (c::'a::linorder) < snd e) sp"
proof (induction sp)
  case Nil then show ?case by simp
next
  case (Cons x xs)
  show ?case
  proof (cases "snd x \<le> c")
    case True
    then show ?thesis using Cons by auto
  next
    case False
    have "\<forall>e \<in> set xs. c < snd e" using Cons.prems False by auto
    then have "filter (\<lambda>e. c < snd e) xs = xs" by (simp add: filter_id_conv)
    then show ?thesis using False by simp
  qed
qed

text \<open>The loop from sample \<open>i\<close> on, when the shared points left are those above \<open>lo\<close>.\<close>

lemma circleLoop_exact:
  assumes "sorted (map snd sp)"
    and "\<forall>i < n. \<forall>j < n. i < j \<longrightarrow> coord i < coord j"
    and "k \<le> n"
  shows "circleLoop coord pt [k..<n] (filter (\<lambda>e. case angleBefore coord k of None \<Rightarrow> True | Some l \<Rightarrow> l < snd e) sp) pgn
         = pgn @ concat (map (\<lambda>i. crossingsBetween (angleBefore coord i) (Some (coord i)) sp @ [pt i]) [k..<n])
               @ crossingsBetween (angleBefore coord n) None sp"
  using assms(3)
proof (induction "n - k" arbitrary: k pgn)
  case 0
  then have "k = n" by simp
  then show ?case by (simp add: crossingsBetween_def)
next
  case (Suc d)
  then have kn: "k < n" and d: "d = n - Suc k" and le: "Suc k \<le> n" by auto
  let ?lo = "\<lambda>e. case angleBefore coord k of None \<Rightarrow> True | Some l \<Rightarrow> l < snd e"
  let ?rest = "filter ?lo sp"
  have srt: "sorted (map snd ?rest)" using assms(1) by (simp add: sorted_map sorted_wrt_filter)
  have upt: "[k..<n] = k # [Suc k..<n]" using kn by (simp add: upt_rec)
  have lo_lt: "l < coord k" if "angleBefore coord k = Some l" for l
    using that assms(2) kn by (auto simp: angleBefore_def split: if_splits)
  have drop: "dropWhile (\<lambda>e. snd e \<le> coord k) ?rest
              = filter (\<lambda>e. case angleBefore coord (Suc k) of None \<Rightarrow> True | Some l \<Rightarrow> l < snd e) sp"
  proof -
    have "dropWhile (\<lambda>e. snd e \<le> coord k) ?rest = filter (\<lambda>e. coord k < snd e) ?rest"
      by (rule sorted_dropWhile_filter[OF srt])
    also have "\<dots> = filter (\<lambda>e. coord k < snd e) sp"
      using lo_lt by (auto intro!: filter_cong split: option.splits)
    finally show ?thesis by (simp add: angleBefore_def)
  qed
  have pushed: "map fst (filter (\<lambda>e. snd e \<noteq> coord k) (takeWhile (\<lambda>e. snd e \<le> coord k) ?rest))
              = crossingsBetween (angleBefore coord k) (Some (coord k)) sp"
  proof -
    have "filter (\<lambda>e. snd e \<noteq> coord k) (takeWhile (\<lambda>e. snd e \<le> coord k) ?rest)
          = filter (\<lambda>e. snd e \<noteq> coord k) (filter (\<lambda>e. snd e \<le> coord k) ?rest)"
      by (simp only: sorted_takeWhile_filter[OF srt])
    also have "\<dots> = filter (\<lambda>e. ?lo e \<and> snd e < coord k) sp"
      by (auto intro!: filter_cong)
    finally show ?thesis by (simp add: crossingsBetween_def)
  qed
  have "circleLoop coord pt [k..<n] ?rest pgn
        = circleLoop coord pt [Suc k..<n]
            (filter (\<lambda>e. case angleBefore coord (Suc k) of None \<Rightarrow> True | Some l \<Rightarrow> l < snd e) sp)
            ((pgn @ crossingsBetween (angleBefore coord k) (Some (coord k)) sp) @ [pt k])"
    unfolding upt by (simp add: addSharedBefore_eq drop pushed)
  also have "\<dots> = ((pgn @ crossingsBetween (angleBefore coord k) (Some (coord k)) sp) @ [pt k])
         @ concat (map (\<lambda>i. crossingsBetween (angleBefore coord i) (Some (coord i)) sp @ [pt i]) [Suc k..<n])
         @ crossingsBetween (angleBefore coord n) None sp"
    by (rule Suc.hyps(1)[OF d le])
  finally show ?case unfolding upt by simp
qed



text \<open>
  C5, as the code has it. With sample angles that increase, the polygon is, for each sample
  in turn, the edge-crossing points whose angle lies strictly between the angle of the
  previous sample and the angle of this one, followed by the sample itself, and after the
  last sample the edge-crossing points above its angle. So every regularly spaced sample is
  inserted, a crossing strictly between two sample angles is inserted between those two
  samples, and a crossing at exactly the angle of a sample is not inserted at all: a point
  all of whose entries have the angle of some sample is missing from the polygon (unless a
  sample happens to be that very point). At equal angle the sample is kept and the
  edge-crossing point is left out.
\<close>

theorem equal_angle_keeps_sample:
  assumes "polygonFromCircle is_simple_ccw_convex vertexCount circleCoord circlePoint edgeCrossings
             = Inr pgn"
    and "\<forall>i < vertexCount. \<forall>j < vertexCount. i < j \<longrightarrow> circleCoord i < circleCoord j"
  shows "pgn = concat (map (\<lambda>i. crossingsBetween (angleBefore circleCoord i) (Some (circleCoord i))
                                   (getCircleSharedPoints edgeCrossings) @ [circlePoint i])
                           [0..<vertexCount])
               @ crossingsBetween (angleBefore circleCoord vertexCount) None
                   (getCircleSharedPoints edgeCrossings)
       \<and> (\<forall>i < vertexCount. circlePoint i \<in> set pgn)
       \<and> (\<forall>p. (\<forall>(q, a) \<in> set edgeCrossings. q = p \<longrightarrow> a \<in> circleCoord ` {..<vertexCount})
               \<and> p \<notin> circlePoint ` {..<vertexCount}
             \<longrightarrow> p \<notin> set pgn)"
proof -
  let ?sp = "getCircleSharedPoints edgeCrossings"
  let ?is = "[0..<vertexCount]"
  have pgn: "pgn = circleLoop circleCoord circlePoint ?is ?sp []"
    using assms(1) by (auto simp: polygonFromCircle_def Let_def split: if_splits)
  have srt: "sorted (map snd ?sp)" by (simp add: getCircleSharedPoints_def)
  have inc: "sorted_wrt (<) (map circleCoord ?is)"
    using assms(2) by (simp add: sorted_wrt_map sorted_wrt_iff_nth_less)
  have all: "filter (\<lambda>e. case angleBefore circleCoord 0 of None \<Rightarrow> True | Some l \<Rightarrow> l < snd e) ?sp = ?sp"
    by (simp add: angleBefore_def)
  have exact: "pgn = concat (map (\<lambda>i. crossingsBetween (angleBefore circleCoord i) (Some (circleCoord i)) ?sp
                                        @ [circlePoint i]) ?is)
                     @ crossingsBetween (angleBefore circleCoord vertexCount) None ?sp"
    using circleLoop_exact[OF srt assms(2), of 0 circlePoint "[]"] unfolding all pgn by simp
  have sub: "set pgn \<subseteq> set [] \<union> circlePoint ` set ?is
               \<union> {q. \<exists>a. (q, a) \<in> set ?sp \<and> a \<notin> circleCoord ` set ?is}"
    unfolding pgn by (rule circleLoop_subset[OF srt inc])
  have dropped: "p \<notin> set pgn"
    if "\<forall>(q, a) \<in> set edgeCrossings. q = p \<longrightarrow> a \<in> circleCoord ` {..<vertexCount}"
      and "p \<notin> circlePoint ` {..<vertexCount}" for p
  proof -
    have "p \<notin> {q. \<exists>a. (q, a) \<in> set ?sp \<and> a \<notin> circleCoord ` set ?is}"
      using that(1) by (auto simp: getCircleSharedPoints_def atLeast0LessThan)
    moreover have "p \<notin> circlePoint ` set ?is" using that(2) by (simp add: atLeast0LessThan)
    ultimately show ?thesis using sub by auto
  qed
  have "circlePoint ` set ?is \<subseteq> set pgn"
    unfolding pgn using circleLoop_keeps[of "[]" circlePoint ?is circleCoord ?sp] by simp
  then have kept: "\<forall>i < vertexCount. circlePoint i \<in> set pgn" by auto
  show ?thesis using exact kept dropped by blast
qed


text \<open>
  Four samples at quarter turns on a circle of radius 5 (the second one slightly off the
  axis, as a rounded sample is), one crossing at \<open>5/8\<close> of a turn and one crossing \<open>(0, 5)\<close>
  at exactly the angle of sample 1.
\<close>

definition quarterTurn :: "nat \<Rightarrow> rat" where
  "quarterTurn i = of_nat i / 4"

definition sample4 :: "nat \<Rightarrow> Point2" where
  "sample4 i = (if i = 0 then (5, 0) else if i = 1 then (1 / 1000000, 5)
                else if i = 2 then (- 5, 0) else (0, - 5))"

definition crossings4 :: "(Point2 \<times> rat) list" where
  "crossings4 = [((- 3, - 4), 5 / 8), ((0, 5), 1 / 4)]"

definition polygon4 :: Polygon where
  "polygon4 = [(5, 0), (1 / 1000000, 5), (- 5, 0), (- 3, - 4), (0, - 5)]"

lemma polygonFromCircle_crossings4:
  "polygonFromCircle (\<lambda>pgn. True) 4 quarterTurn sample4 crossings4
     = Inr polygon4"
  by (simp add: polygonFromCircle_def getCircleSharedPoints_def crossings4_def quarterTurn_def
      sample4_def polygon4_def upt_rec numeral_eq_Suc)

lemma between_crossings4:
  "crossingsBetween (angleBefore quarterTurn 0) (Some (quarterTurn 0)) (getCircleSharedPoints crossings4) = []
   \<and> crossingsBetween (angleBefore quarterTurn 1) (Some (quarterTurn 1)) (getCircleSharedPoints crossings4) = []
   \<and> crossingsBetween (angleBefore quarterTurn 2) (Some (quarterTurn 2)) (getCircleSharedPoints crossings4) = []
   \<and> crossingsBetween (angleBefore quarterTurn 3) (Some (quarterTurn 3)) (getCircleSharedPoints crossings4)
       = [(- 3, - 4)]
   \<and> crossingsBetween (angleBefore quarterTurn 4) None (getCircleSharedPoints crossings4) = []"
  by code_simp


theorem equal_angle_keeps_sample_witness:
  "polygonFromCircle (\<lambda>pgn. True) 4 quarterTurn sample4 crossings4 = Inr polygon4
   \<and> quarterTurn 0 < quarterTurn 1 \<and> quarterTurn 1 < quarterTurn 2 \<and> quarterTurn 2 < quarterTurn 3
   \<and> polygon4 = [sample4 0, sample4 1, sample4 2] @ [(- 3, - 4)] @ [sample4 3]
   \<and> ((- 3, - 4), 5 / 8) \<in> set crossings4 \<and> quarterTurn 2 < 5 / 8 \<and> 5 / 8 < quarterTurn 3
   \<and> ((0, 5), quarterTurn 1) \<in> set crossings4
   \<and> (0, 5) \<notin> sample4 ` {..<4}
   \<and> (0, 5) \<notin> set polygon4
   \<and> sample4 0 \<in> set polygon4 \<and> sample4 1 \<in> set polygon4
   \<and> sample4 2 \<in> set polygon4 \<and> sample4 3 \<in> set polygon4"
proof -
  have h2: "\<forall>i < 4. \<forall>j < 4. i < j \<longrightarrow> quarterTurn i < quarterTurn j"
    by (simp add: quarterTurn_def)
  have h3: "\<forall>(q, a) \<in> set crossings4. q = (0, 5) \<longrightarrow> a \<in> quarterTurn ` {..<4}"
  proof -
    have "(1 / 4 :: rat) = quarterTurn 1" by (simp add: quarterTurn_def)
    then have "(1 / 4 :: rat) \<in> quarterTurn ` {..<4}" by (metis imageI lessThan_iff one_less_numeral_iff semiring_norm(76))
    then show ?thesis by (simp add: crossings4_def)
  qed
  have h4: "(0, 5) \<notin> sample4 ` {..<4}"
    by (auto simp: sample4_def split: if_splits)
  note t = equal_angle_keeps_sample[OF polygonFromCircle_crossings4 h2]
  have shape: "polygon4 = [sample4 0, sample4 1, sample4 2] @ [(- 3, - 4)] @ [sample4 3]"
    using t between_crossings4 by (simp add: upt_rec numeral_eq_Suc)
  have gone: "(0, 5) \<notin> set polygon4" using t h3 h4 by blast
  have kept: "sample4 0 \<in> set polygon4 \<and> sample4 1 \<in> set polygon4
              \<and> sample4 2 \<in> set polygon4 \<and> sample4 3 \<in> set polygon4"
    using t by simp
  show ?thesis
    using polygonFromCircle_crossings4 shape gone kept h4
    by (simp add: crossings4_def quarterTurn_def)
qed


text \<open>
  C5 as stated fails: the crossing \<open>(0, 5)\<close> has the angle of sample 1, and the polygon
  holds sample 1 and not the crossing.
\<close>

theorem equal_angle_crossing_dropped:
  "snd (crossings4 ! 1) = quarterTurn 1
   \<and> fst (crossings4 ! 1) = (0, 5)
   \<and> polygonFromCircle (\<lambda>pgn. True) 4 quarterTurn sample4 crossings4
       = Inr polygon4
   \<and> (0, 5) \<notin> set polygon4
   \<and> sample4 1 = (1 / 1000000, 5)"
  using polygonFromCircle_crossings4
  by (simp add: crossings4_def quarterTurn_def sample4_def polygon4_def)

section \<open>Domain triangulator: \<open>markDomains\<close> (TriangleDetail.cpp)\<close>

text \<open>
  What the code reads of CGAL's constrained triangulation: its faces in the order of
  \<open>all_faces_begin()\<close>, each with its three vertices, the handles (indices) of its three
  neighbours, a flag per edge for \<open>is_constrained\<close>, whether it is an infinite face, and the
  \<open>nestingLevel\<close> of its \<open>info()\<close>; and the handle of \<open>infinite_face()\<close>. An edge is a face
  handle with an index 0, 1 or 2. A handle outside the face list is an error of the model.
\<close>

record Face =
  vertex :: "Point2 \<times> Point2 \<times> Point2"
  neighbor :: "nat \<times> nat \<times> nat"
  is_constrained :: "bool \<times> bool \<times> bool"
  is_infinite :: bool
  nestingLevel :: int

type_synonym Edge = "nat \<times> nat"

record ConstrainedTriangulation =
  all_faces :: "Face list"
  infinite_face :: nat

definition nth3 :: "'a \<times> 'a \<times> 'a \<Rightarrow> nat \<Rightarrow> 'a" where
  "nth3 t i = (case t of (a, b, c) \<Rightarrow> if i = 0 then a else if i = 1 then b else c)"

text \<open>
  The \<open>for\<close> loop over the three edges of a face that has just received its level: a
  neighbour without a level goes to the border when the edge between is constrained, to
  the queue otherwise.
\<close>

fun exploreEdges ::
  "Face list \<Rightarrow> nat \<Rightarrow> nat list \<Rightarrow> nat list \<times> Edge list \<Rightarrow> error + nat list \<times> Edge list" where
  "exploreEdges fs fh [] st = Inr st"
| "exploreEdges fs fh (i # is) (queue, border) =
     (let n = nth3 (neighbor (fs ! fh)) i in
      if \<not> n < length fs then Inl InvalidHandle
      else if nestingLevel (fs ! n) = - 1 then
        (if nth3 (is_constrained (fs ! fh)) i
         then exploreEdges fs fh is (queue, border @ [(fh, i)])
         else exploreEdges fs fh is (queue @ [n], border))
      else exploreEdges fs fh is (queue, border))"

text \<open>The faces whose level is still \<open>-1\<close>.\<close>

definition unassigned :: "Face list \<Rightarrow> nat set" where
  "unassigned fs = {f. f < length fs \<and> nestingLevel (fs ! f) = - 1}"

lemma finite_unassigned: "finite (unassigned fs)"
  by (simp add: unassigned_def)

lemma unassigned_assign:
  assumes "fh < length fs" "nestingLevel (fs ! fh) = - 1" "l \<noteq> - 1"
  shows "unassigned (fs[fh := (fs ! fh)\<lparr>nestingLevel := l\<rparr>]) = unassigned fs - {fh}"
  using assms by (auto simp: unassigned_def nth_list_update)

lemma card_unassigned_assign:
  assumes "fh < length fs" "nestingLevel (fs ! fh) = - 1" "l \<noteq> - 1"
  shows "card (unassigned (fs[fh := (fs ! fh)\<lparr>nestingLevel := l\<rparr>])) < card (unassigned fs)"
proof -
  have "fh \<in> unassigned fs" using assms by (simp add: unassigned_def)
  then show ?thesis
    unfolding unassigned_assign[OF assms]
    by (metis card_Diff1_less finite_unassigned)
qed

lemma exploreEdges_length:
  "exploreEdges fs fh is (queue, border) = Inr (queue', border') \<Longrightarrow>
   length queue' \<le> length queue + length is"
proof (induction "is" arbitrary: queue border)
  case Nil then show ?case by simp
next
  case (Cons i "is")
  then show ?case
    by (fastforce simp: Let_def split: if_splits)
qed

text \<open>
  The \<open>while\<close> loop of the four-argument \<open>markDomains\<close>. Both call sites pass a level that is
  0 or one more than an assigned level, so \<open>index\<close> is a natural number; the level written is
  then never \<open>-1\<close>, every round either assigns a face or shortens the queue, and the loop ends.
\<close>

function markDomains_bfs ::
  "Face list \<Rightarrow> nat \<Rightarrow> nat list \<Rightarrow> Edge list \<Rightarrow> error + Face list \<times> Edge list" where
  "markDomains_bfs fs index [] border = Inr (fs, border)"
| "markDomains_bfs fs index (fh # queue) border =
     (if \<not> fh < length fs then Inl InvalidHandle
      else if nestingLevel (fs ! fh) = - 1 then
        (case exploreEdges (fs[fh := (fs ! fh)\<lparr>nestingLevel := int index\<rparr>]) fh [0, 1, 2]
                (queue, border) of
           Inl e \<Rightarrow> Inl e
         | Inr (queue', border') \<Rightarrow>
             markDomains_bfs (fs[fh := (fs ! fh)\<lparr>nestingLevel := int index\<rparr>]) index queue' border')
      else markDomains_bfs fs index queue border)"
  by pat_completeness auto

termination markDomains_bfs
proof (relation "measure (\<lambda>(fs, index, queue, border). 4 * card (unassigned fs) + length queue)",
    goal_cases)
  case 1
  show ?case by simp
next
  case (2 fs index fh queue border x2 queue' border')
  have "card (unassigned (fs[fh := (fs ! fh)\<lparr>nestingLevel := int index\<rparr>])) < card (unassigned fs)"
    using 2 by (intro card_unassigned_assign) auto
  moreover have "exploreEdges (fs[fh := (fs ! fh)\<lparr>nestingLevel := int index\<rparr>]) fh [0, 1, 2]
                   (queue, border) = Inr (queue', border')"
    using 2 by (simp del: exploreEdges.simps)
  then have "length queue' \<le> length queue + 3"
    using exploreEdges_length by fastforce
  ultimately show ?case by simp
next
  case (3 fs index fh queue border)
  show ?case by simp
qed

declare markDomains_bfs.simps [simp del]

definition markDomains_from ::
  "Face list \<Rightarrow> nat \<Rightarrow> nat \<Rightarrow> Edge list \<Rightarrow> error + Face list \<times> Edge list" where
  "markDomains_from fs start index border =
     (if \<not> start < length fs then Inl InvalidHandle
      else if nestingLevel (fs ! start) \<noteq> - 1 then Inr (fs, border)
      else markDomains_bfs fs index [start] border)"


lemma exploreEdges_queue_mono:
  "exploreEdges fs fh is (queue, border) = Inr (queue', border') \<Longrightarrow> set queue \<subseteq> set queue'"
proof (induction "is" arbitrary: queue border)
  case Nil then show ?case by simp
next
  case (Cons i "is")
  then show ?case by (fastforce simp: Let_def split: if_splits)
qed

lemma markDomains_bfs_unassigned:
  "markDomains_bfs fs index queue border = Inr (fs', border') \<Longrightarrow>
   length fs' = length fs \<and> unassigned fs' \<subseteq> unassigned fs \<and> (\<forall>q \<in> set queue. q \<notin> unassigned fs')"
proof (induction fs index queue border rule: markDomains_bfs.induct)
  case (1 fs index border)
  then show ?case by (simp add: markDomains_bfs.simps)
next
  case (2 fs index fh queue border)
  from "2.prems" have fh: "fh < length fs"
    by (simp add: markDomains_bfs.simps split: if_splits)
  show ?case
  proof (cases "nestingLevel (fs ! fh) = - 1")
    case True
    let ?fs = "fs[fh := (fs ! fh)\<lparr>nestingLevel := int index\<rparr>]"
    from "2.prems" fh True obtain queue1 border1 where
      ex: "exploreEdges ?fs fh [0, 1, 2] (queue, border) = Inr (queue1, border1)"
      and rec: "markDomains_bfs ?fs index queue1 border1 = Inr (fs', border')"
      by (auto simp: markDomains_bfs.simps split: sum.splits simp del: exploreEdges.simps)
    have IH: "length fs' = length ?fs \<and> unassigned fs' \<subseteq> unassigned ?fs
              \<and> (\<forall>q \<in> set queue1. q \<notin> unassigned fs')"
      using "2.IH"(1)[OF _ True ex refl rec] fh by simp
    have u: "unassigned ?fs = unassigned fs - {fh}"
      using fh True by (intro unassigned_assign) auto
    have "set queue \<subseteq> set queue1" by (rule exploreEdges_queue_mono[OF ex])
    with IH u show ?thesis by auto
  next
    case False
    with "2.prems" fh have rec: "markDomains_bfs fs index queue border = Inr (fs', border')"
      by (simp add: markDomains_bfs.simps)
    have "length fs' = length fs \<and> unassigned fs' \<subseteq> unassigned fs
              \<and> (\<forall>q \<in> set queue. q \<notin> unassigned fs')"
      using "2.IH"(2)[OF _ False rec] fh by simp
    moreover have "fh \<notin> unassigned fs" using False by (simp add: unassigned_def)
    ultimately show ?thesis by auto
  qed
qed

lemma markDomains_from_unassigned:
  assumes "markDomains_from fs start index border = Inr (fs', border')"
  shows "length fs' = length fs \<and> unassigned fs' \<subseteq> unassigned fs \<and> start \<notin> unassigned fs'"
proof (cases "nestingLevel (fs ! start) = - 1")
  case True
  with assms have "markDomains_bfs fs index [start] border = Inr (fs', border')"
    by (simp add: markDomains_from_def split: if_splits)
  from markDomains_bfs_unassigned[OF this] show ?thesis by simp
next
  case False
  with assms show ?thesis
    by (auto simp: markDomains_from_def unassigned_def split: if_splits)
qed

text \<open>
  The \<open>while\<close> loop of the one-argument \<open>markDomains\<close> over the border edges: the face across
  a border edge, when it has no level yet, starts a flood one level deeper.
\<close>

function markDomains_border :: "Face list \<Rightarrow> Edge list \<Rightarrow> error + Face list" where
  "markDomains_border fs [] = Inr fs"
| "markDomains_border fs (e # border) =
     (if \<not> fst e < length fs then Inl InvalidHandle
      else if \<not> nth3 (neighbor (fs ! fst e)) (snd e) < length fs then Inl InvalidHandle
      else if nestingLevel (fs ! nth3 (neighbor (fs ! fst e)) (snd e)) = - 1 then
        (case markDomains_from fs (nth3 (neighbor (fs ! fst e)) (snd e))
                (nat (nestingLevel (fs ! fst e) + 1)) border of
           Inl err \<Rightarrow> Inl err
         | Inr (fs', border') \<Rightarrow> markDomains_border fs' border')
      else markDomains_border fs border)"
  by pat_completeness auto

termination markDomains_border
proof (relation "measures [\<lambda>(fs, border). card (unassigned fs), \<lambda>(fs, border). length border]",
    goal_cases)
  case 1
  show ?case by simp
next
  case (2 fs e border x2 fs' border')
  let ?n = "nth3 (neighbor (fs ! fst e)) (snd e)"
  have md: "markDomains_from fs ?n (nat (nestingLevel (fs ! fst e) + 1)) border = Inr (fs', border')"
    using 2 by simp
  have "?n \<in> unassigned fs" using 2 by (simp add: unassigned_def)
  moreover have "unassigned fs' \<subseteq> unassigned fs" "?n \<notin> unassigned fs'"
    using markDomains_from_unassigned[OF md] by auto
  ultimately have "unassigned fs' \<subset> unassigned fs" by auto
  then have "card (unassigned fs') < card (unassigned fs)"
    by (simp add: finite_unassigned psubset_card_mono)
  then show ?case by simp
next
  case (3 fs e border)
  show ?case by simp
qed

declare markDomains_border.simps [simp del]

text \<open>
  \<open>markDomains(ct)\<close>: all levels are reset to \<open>-1\<close>, the flood starts from the infinite face at
  level 0, then the border is worked off.
\<close>

definition markDomains :: "ConstrainedTriangulation \<Rightarrow> error + ConstrainedTriangulation" where
  "markDomains ct =
     (case markDomains_from (map (\<lambda>f. f\<lparr>nestingLevel := - 1\<rparr>) (all_faces ct))
             (infinite_face ct) 0 [] of
        Inl e \<Rightarrow> Inl e
      | Inr (fs, border) \<Rightarrow>
          (case markDomains_border fs border of
             Inl e \<Rightarrow> Inl e
           | Inr fs' \<Rightarrow> Inr (ct\<lparr>all_faces := fs'\<rparr>)))"


subsection \<open>What the flood leaves behind\<close>

text \<open>
  \<open>skeleton\<close> forgets the levels: the flood changes nothing else. In a well-formed
  triangulation every neighbour handle is a face of the list. \<open>levelsInv\<close> is the invariant
  of both loops: no level is below \<open>-1\<close>, and every border edge belongs to a face that
  already has a level.
\<close>

definition skeleton :: "Face list \<Rightarrow> Face list" where
  "skeleton fs = map (\<lambda>f. f\<lparr>nestingLevel := 0\<rparr>) fs"

definition wfFaces :: "Face list \<Rightarrow> bool" where
  "wfFaces fs \<longleftrightarrow> (\<forall>f \<in> set fs. \<forall>i < 3. nth3 (neighbor f) i < length fs)"

definition levelsInv :: "Face list \<Rightarrow> Edge list \<Rightarrow> bool" where
  "levelsInv fs border \<longleftrightarrow>
     wfFaces fs \<and> (\<forall>f \<in> set fs. - 1 \<le> nestingLevel f)
     \<and> (\<forall>e \<in> set border. fst e < length fs \<and> snd e < 3 \<and> 0 \<le> nestingLevel (fs ! fst e))"

lemma skeleton_length: "skeleton fs' = skeleton fs \<Longrightarrow> length fs' = length fs"
  unfolding skeleton_def by (metis length_map)

lemma skeleton_neighbor:
  assumes "skeleton fs' = skeleton fs" "f < length fs"
  shows "neighbor (fs' ! f) = neighbor (fs ! f)"
proof -
  have "f < length fs'" using assms skeleton_length by metis
  have "neighbor (skeleton fs' ! f) = neighbor (fs' ! f)"
    using \<open>f < length fs'\<close> by (simp add: skeleton_def)
  moreover have "neighbor (skeleton fs ! f) = neighbor (fs ! f)"
    using assms(2) by (simp add: skeleton_def)
  ultimately show ?thesis using assms(1) by simp
qed

lemma skeleton_assign: "skeleton (fs[fh := (fs ! fh)\<lparr>nestingLevel := l\<rparr>]) = skeleton fs"
  unfolding skeleton_def
  by (cases "fh < length fs") (simp_all add: map_update list_update_same_conv list_update_beyond)

lemma wfFaces_nth: "wfFaces fs \<Longrightarrow> f < length fs \<Longrightarrow> i < 3 \<Longrightarrow> nth3 (neighbor (fs ! f)) i < length fs"
  by (simp add: wfFaces_def)

lemma wfFaces_skeleton:
  assumes "skeleton fs' = skeleton fs" "wfFaces fs"
  shows "wfFaces fs'"
  unfolding wfFaces_def
proof (intro ballI allI impI)
  fix f i assume f: "f \<in> set fs'" and i: "i < (3::nat)"
  then obtain k where k: "k < length fs'" "fs' ! k = f" by (auto simp: in_set_conv_nth)
  have len: "length fs' = length fs" by (rule skeleton_length[OF assms(1)])
  have "neighbor f = neighbor (fs ! k)" using skeleton_neighbor[OF assms(1)] k len by auto
  then show "nth3 (neighbor f) i < length fs'"
    using wfFaces_nth[OF assms(2), of k i] k len i by simp
qed

lemma exploreEdges_total:
  "wfFaces fs \<Longrightarrow> fh < length fs \<Longrightarrow> \<forall>i \<in> set is. i < 3 \<Longrightarrow>
   \<exists>queue' border'. exploreEdges fs fh is (queue, border) = Inr (queue', border')
      \<and> set queue' \<subseteq> set queue \<union> {..<length fs}
      \<and> set border' \<subseteq> set border \<union> {fh} \<times> {..<3}"
proof (induction "is" arbitrary: queue border)
  case Nil then show ?case by simp
next
  case (Cons i "is")
  let ?n = "nth3 (neighbor (fs ! fh)) i"
  have i: "i < 3" and rest: "\<forall>i \<in> set is. i < 3" using Cons.prems(3) by auto
  have n: "?n < length fs" using wfFaces_nth[OF Cons.prems(1,2) i] .
  consider (a) "nestingLevel (fs ! ?n) = - 1" "nth3 (is_constrained (fs ! fh)) i"
    | (b) "nestingLevel (fs ! ?n) = - 1" "\<not> nth3 (is_constrained (fs ! fh)) i"
    | (c) "nestingLevel (fs ! ?n) \<noteq> - 1" by blast
  then show ?case
  proof cases
    case a
    from Cons.IH[OF Cons.prems(1,2) rest, of queue "border @ [(fh, i)]"] obtain queue' border'
      where r: "exploreEdges fs fh is (queue, border @ [(fh, i)]) = Inr (queue', border')"
        "set queue' \<subseteq> set queue \<union> {..<length fs}"
        "set border' \<subseteq> set (border @ [(fh, i)]) \<union> {fh} \<times> {..<3}" by blast
    have "exploreEdges fs fh (i # is) (queue, border) = Inr (queue', border')"
      using a n r(1) by (simp add: Let_def)
    moreover have "set border' \<subseteq> set border \<union> {fh} \<times> {..<3}" using r(3) i by auto
    ultimately show ?thesis using r(2) by blast
  next
    case b
    from Cons.IH[OF Cons.prems(1,2) rest, of "queue @ [?n]" border] obtain queue' border'
      where r: "exploreEdges fs fh is (queue @ [?n], border) = Inr (queue', border')"
        "set queue' \<subseteq> set (queue @ [?n]) \<union> {..<length fs}"
        "set border' \<subseteq> set border \<union> {fh} \<times> {..<3}" by blast
    have "exploreEdges fs fh (i # is) (queue, border) = Inr (queue', border')"
      using b n r(1) by (simp add: Let_def)
    moreover have "set queue' \<subseteq> set queue \<union> {..<length fs}" using r(2) n by auto
    ultimately show ?thesis using r(3) by blast
  next
    case c
    from Cons.IH[OF Cons.prems(1,2) rest, of queue border] obtain queue' border'
      where r: "exploreEdges fs fh is (queue, border) = Inr (queue', border')"
        "set queue' \<subseteq> set queue \<union> {..<length fs}"
        "set border' \<subseteq> set border \<union> {fh} \<times> {..<3}" by blast
    have "exploreEdges fs fh (i # is) (queue, border) = Inr (queue', border')"
      using c n r(1) by (simp add: Let_def)
    then show ?thesis using r(2,3) by blast
  qed
qed


lemma levelsInv_assign:
  assumes "levelsInv fs border" "fh < length fs"
  shows "levelsInv (fs[fh := (fs ! fh)\<lparr>nestingLevel := int index\<rparr>]) border"
proof -
  let ?fs = "fs[fh := (fs ! fh)\<lparr>nestingLevel := int index\<rparr>]"
  have wf: "wfFaces ?fs" using assms(1) wfFaces_skeleton[OF skeleton_assign] by (simp add: levelsInv_def)
  have lv: "\<forall>f \<in> set ?fs. - 1 \<le> nestingLevel f"
  proof
    fix f assume "f \<in> set ?fs"
    then have "f = (fs ! fh)\<lparr>nestingLevel := int index\<rparr> \<or> f \<in> set fs"
      by (meson insertE set_update_subset_insert subsetD)
    then show "- 1 \<le> nestingLevel f" using assms(1) by (auto simp: levelsInv_def)
  qed
  have bd: "\<forall>e \<in> set border. fst e < length ?fs \<and> snd e < 3 \<and> 0 \<le> nestingLevel (?fs ! fst e)"
    using assms by (auto simp: levelsInv_def nth_list_update)
  show ?thesis unfolding levelsInv_def using wf lv bd by blast
qed

lemma markDomains_bfs_props:
  "levelsInv fs border \<Longrightarrow> \<forall>q \<in> set queue. q < length fs \<Longrightarrow>
   \<exists>fs' border'. markDomains_bfs fs index queue border = Inr (fs', border')
      \<and> levelsInv fs' border' \<and> skeleton fs' = skeleton fs
      \<and> (\<forall>f < length fs. nestingLevel (fs ! f) \<noteq> - 1 \<longrightarrow> nestingLevel (fs' ! f) = nestingLevel (fs ! f))
      \<and> (\<forall>f < length fs. nestingLevel (fs' ! f) = nestingLevel (fs ! f) \<or> nestingLevel (fs' ! f) = int index)"
proof (induction fs index queue border rule: markDomains_bfs.induct)
  case (1 fs index border)
  then show ?case by (simp add: markDomains_bfs.simps)
next
  case (2 fs index fh queue border)
  have fh: "fh < length fs" and qs: "\<forall>q \<in> set queue. q < length fs" using "2.prems"(2) by auto
  show ?case
  proof (cases "nestingLevel (fs ! fh) = - 1")
    case True
    let ?fs = "fs[fh := (fs ! fh)\<lparr>nestingLevel := int index\<rparr>]"
    have inv1: "levelsInv ?fs border" by (rule levelsInv_assign[OF "2.prems"(1) fh])
    have len1: "length ?fs = length fs" by simp
    have wf1: "wfFaces ?fs" using inv1 by (simp add: levelsInv_def)
    obtain queue1 border1 where
      ex: "exploreEdges ?fs fh [0, 1, 2] (queue, border) = Inr (queue1, border1)"
      and q1: "set queue1 \<subseteq> set queue \<union> {..<length ?fs}"
      and b1: "set border1 \<subseteq> set border \<union> {fh} \<times> {..<3}"
      using exploreEdges_total[OF wf1, of fh "[0, 1, 2]" queue border] fh by auto
    have lvfh: "nestingLevel (?fs ! fh) = int index" using fh by simp
    have inv2: "levelsInv ?fs border1"
      using inv1 b1 lvfh fh unfolding levelsInv_def by auto
    have qs1: "\<forall>q \<in> set queue1. q < length ?fs" using q1 qs by auto
    from "2.IH"(1)[OF _ True ex refl inv2 qs1] fh obtain fs' border' where
      r: "markDomains_bfs ?fs index queue1 border1 = Inr (fs', border')"
        "levelsInv fs' border'" "skeleton fs' = skeleton ?fs"
        "\<forall>f < length ?fs. nestingLevel (?fs ! f) \<noteq> - 1 \<longrightarrow> nestingLevel (fs' ! f) = nestingLevel (?fs ! f)"
        "\<forall>f < length ?fs. nestingLevel (fs' ! f) = nestingLevel (?fs ! f) \<or> nestingLevel (fs' ! f) = int index"
      by auto
    have eq: "markDomains_bfs fs index (fh # queue) border = Inr (fs', border')"
      using fh True ex r(1) by (simp add: markDomains_bfs.simps del: exploreEdges.simps)
    have sk: "skeleton fs' = skeleton fs" using r(3) skeleton_assign by simp
    have keep: "\<forall>f < length fs. nestingLevel (fs ! f) \<noteq> - 1 \<longrightarrow> nestingLevel (fs' ! f) = nestingLevel (fs ! f)"
    proof (intro allI impI)
      fix f assume f: "f < length fs" and a: "nestingLevel (fs ! f) \<noteq> - 1"
      then have "f \<noteq> fh" using True by auto
      then have "?fs ! f = fs ! f" by simp
      with r(4) f a show "nestingLevel (fs' ! f) = nestingLevel (fs ! f)" by simp
    qed
    have either: "\<forall>f < length fs. nestingLevel (fs' ! f) = nestingLevel (fs ! f) \<or> nestingLevel (fs' ! f) = int index"
    proof (intro allI impI)
      fix f assume f: "f < length fs"
      show "nestingLevel (fs' ! f) = nestingLevel (fs ! f) \<or> nestingLevel (fs' ! f) = int index"
      proof (cases "f = fh")
        case True
        then show ?thesis using r(5) f lvfh by auto
      next
        case False
        then have "?fs ! f = fs ! f" by simp
        with r(5) f show ?thesis by auto
      qed
    qed
    show ?thesis using eq r(2) sk keep either by blast
  next
    case False
    from "2.IH"(2)[OF _ False "2.prems"(1) qs] fh obtain fs' border' where
      r: "markDomains_bfs fs index queue border = Inr (fs', border')"
        "levelsInv fs' border'" "skeleton fs' = skeleton fs"
        "\<forall>f < length fs. nestingLevel (fs ! f) \<noteq> - 1 \<longrightarrow> nestingLevel (fs' ! f) = nestingLevel (fs ! f)"
        "\<forall>f < length fs. nestingLevel (fs' ! f) = nestingLevel (fs ! f) \<or> nestingLevel (fs' ! f) = int index"
      by auto
    have "markDomains_bfs fs index (fh # queue) border = Inr (fs', border')"
      using fh False r(1) by (simp add: markDomains_bfs.simps)
    then show ?thesis using r(2-5) by blast
  qed
qed

lemma markDomains_from_props:
  assumes "levelsInv fs border" "start < length fs"
  shows "\<exists>fs' border'. markDomains_from fs start index border = Inr (fs', border')
      \<and> levelsInv fs' border' \<and> skeleton fs' = skeleton fs
      \<and> (\<forall>f < length fs. nestingLevel (fs ! f) \<noteq> - 1 \<longrightarrow> nestingLevel (fs' ! f) = nestingLevel (fs ! f))
      \<and> (\<forall>f < length fs. nestingLevel (fs' ! f) = nestingLevel (fs ! f) \<or> nestingLevel (fs' ! f) = int index)"
proof (cases "nestingLevel (fs ! start) = - 1")
  case True
  then have "markDomains_from fs start index border = markDomains_bfs fs index [start] border"
    using assms(2) by (simp add: markDomains_from_def)
  then show ?thesis
    using markDomains_bfs_props[OF assms(1), of "[start]" index] assms(2) by simp
next
  case False
  then have "markDomains_from fs start index border = Inr (fs, border)"
    using assms(2) by (simp add: markDomains_from_def)
  then show ?thesis using assms(1) by simp
qed

lemma markDomains_border_props:
  "levelsInv fs border \<Longrightarrow>
   \<exists>fs'. markDomains_border fs border = Inr fs' \<and> skeleton fs' = skeleton fs
      \<and> (\<forall>f \<in> set fs'. - 1 \<le> nestingLevel f)
      \<and> (\<forall>f < length fs. nestingLevel (fs ! f) \<noteq> - 1 \<longrightarrow> nestingLevel (fs' ! f) = nestingLevel (fs ! f))"
proof (induction fs border rule: markDomains_border.induct)
  case (1 fs)
  then show ?case by (simp add: markDomains_border.simps levelsInv_def)
next
  case (2 fs e border)
  let ?n = "nth3 (neighbor (fs ! fst e)) (snd e)"
  have e: "fst e < length fs" "snd e < 3" and wf: "wfFaces fs"
    using "2.prems" by (auto simp: levelsInv_def)
  have n: "?n < length fs" by (rule wfFaces_nth[OF wf e])
  have inv: "levelsInv fs border" using "2.prems" by (simp add: levelsInv_def)
  show ?case
  proof (cases "nestingLevel (fs ! ?n) = - 1")
    case True
    let ?ix = "nat (nestingLevel (fs ! fst e) + 1)"
    from markDomains_from_props[OF inv n, of ?ix] obtain fs1 border1 where
      r: "markDomains_from fs ?n ?ix border = Inr (fs1, border1)" "levelsInv fs1 border1"
        "skeleton fs1 = skeleton fs"
        "\<forall>f < length fs. nestingLevel (fs ! f) \<noteq> - 1 \<longrightarrow> nestingLevel (fs1 ! f) = nestingLevel (fs ! f)"
      by blast
    from "2.IH"(1)[OF _ _ True r(1) refl r(2)] e n obtain fs' where
      r': "markDomains_border fs1 border1 = Inr fs'" "skeleton fs' = skeleton fs1"
        "\<forall>f \<in> set fs'. - 1 \<le> nestingLevel f"
        "\<forall>f < length fs1. nestingLevel (fs1 ! f) \<noteq> - 1 \<longrightarrow> nestingLevel (fs' ! f) = nestingLevel (fs1 ! f)"
      by auto
    have eq: "markDomains_border fs (e # border) = Inr fs'"
      using e n True r(1) r'(1) by (simp add: markDomains_border.simps)
    have len: "length fs1 = length fs" by (rule skeleton_length[OF r(3)])
    have "\<forall>f < length fs. nestingLevel (fs ! f) \<noteq> - 1 \<longrightarrow> nestingLevel (fs' ! f) = nestingLevel (fs ! f)"
      using r(4) r'(4) len by auto
    then show ?thesis using eq r'(2,3) r(3) by auto
  next
    case False
    from "2.IH"(2)[OF _ _ False inv] e n obtain fs' where
      r': "markDomains_border fs border = Inr fs'" "skeleton fs' = skeleton fs"
        "\<forall>f \<in> set fs'. - 1 \<le> nestingLevel f"
        "\<forall>f < length fs. nestingLevel (fs ! f) \<noteq> - 1 \<longrightarrow> nestingLevel (fs' ! f) = nestingLevel (fs ! f)"
      by auto
    have "markDomains_border fs (e # border) = Inr fs'"
      using e n False r'(1) by (simp add: markDomains_border.simps)
    then show ?thesis using r'(2-4) by auto
  qed
qed

definition wfTriangulation :: "ConstrainedTriangulation \<Rightarrow> bool" where
  "wfTriangulation ct \<longleftrightarrow> wfFaces (all_faces ct) \<and> infinite_face ct < length (all_faces ct)"

lemma markDomains_props:
  assumes "wfTriangulation ct"
  shows "\<exists>fs'. markDomains ct = Inr (ct\<lparr>all_faces := fs'\<rparr>)
           \<and> skeleton fs' = skeleton (all_faces ct)
           \<and> (\<forall>f \<in> set fs'. - 1 \<le> nestingLevel f)
           \<and> nestingLevel (fs' ! infinite_face ct) = 0"
proof -
  let ?fs0 = "map (\<lambda>f. f\<lparr>nestingLevel := - 1\<rparr>) (all_faces ct)"
  let ?inf = "infinite_face ct"
  have sk0: "skeleton ?fs0 = skeleton (all_faces ct)" by (simp add: skeleton_def)
  have wf0: "wfFaces ?fs0"
    using assms wfFaces_skeleton[OF sk0] by (simp add: wfTriangulation_def)
  have inv0: "levelsInv ?fs0 []" using wf0 by (auto simp: levelsInv_def)
  have inf: "?inf < length ?fs0" using assms by (simp add: wfTriangulation_def)
  from markDomains_from_props[OF inv0 inf, of 0] obtain fs1 border1 where
    r: "markDomains_from ?fs0 ?inf 0 [] = Inr (fs1, border1)" "levelsInv fs1 border1"
      "skeleton fs1 = skeleton ?fs0"
      "\<forall>f < length ?fs0. nestingLevel (fs1 ! f) = nestingLevel (?fs0 ! f) \<or> nestingLevel (fs1 ! f) = int 0"
    by blast
  have "?inf \<notin> unassigned fs1" using markDomains_from_unassigned[OF r(1)] by simp
  moreover have len1: "length fs1 = length ?fs0" by (rule skeleton_length[OF r(3)])
  ultimately have "nestingLevel (fs1 ! ?inf) \<noteq> - 1" using inf by (simp add: unassigned_def)
  with r(4) inf have lv1: "nestingLevel (fs1 ! ?inf) = 0" by auto
  from markDomains_border_props[OF r(2)] obtain fs' where
    r': "markDomains_border fs1 border1 = Inr fs'" "skeleton fs' = skeleton fs1"
      "\<forall>f \<in> set fs'. - 1 \<le> nestingLevel f"
      "\<forall>f < length fs1. nestingLevel (fs1 ! f) \<noteq> - 1 \<longrightarrow> nestingLevel (fs' ! f) = nestingLevel (fs1 ! f)"
    by blast
  have "markDomains ct = Inr (ct\<lparr>all_faces := fs'\<rparr>)"
    using r(1) r'(1) by (simp add: markDomains_def)
  moreover have "nestingLevel (fs' ! ?inf) = 0" using r'(4) lv1 inf len1 by auto
  ultimately show ?thesis using r'(2,3) r(3) sk0 by auto
qed

section \<open>Polygon simplification: \<open>simplifyPolygon\<close> (TriangleDetail.cpp)\<close>

text \<open>
  A line of the exact kernel is kept as CGAL's Cartesian kernel keeps it, by the coefficients
  \<open>(a, b, c)\<close> of \<open>a x + b y + c = 0\<close>. The line through two points is computed as in
  \<open>line_from_pointsC2\<close>: horizontal and vertical lines get the coefficients \<open>0\<close>, \<open>1\<close> and
  \<open>-1\<close>, and two equal points give \<open>(0, 0, 0)\<close>. \<open>Line_2::operator==\<close> is \<open>equal_lineC2\<close>: the
  normal vectors are parallel, and the first coefficient of the first line that is not zero
  has the sign of its counterpart and the same ratio to \<open>c\<close>. \<open>Segment_2::has_on\<close> holds of a
  point that is collinear with the two ends and lies between them. \<open>edge p i\<close> is the segment
  from vertex \<open>i\<close> to the next vertex of the cycle. A polygon with holes is its outer boundary
  and the boundaries of its holes.
\<close>

type_synonym Segment2 = "Point2 \<times> Point2"
type_synonym Line2 = "rat \<times> rat \<times> rat"

record PolygonWithHoles =
  outer_boundary :: Polygon
  holes :: "Polygon list"

definition vsub :: "Point2 \<Rightarrow> Point2 \<Rightarrow> Point2" where
  "vsub p q = (fst p - fst q, snd p - snd q)"

definition cross2 :: "Point2 \<Rightarrow> Point2 \<Rightarrow> rat" where
  "cross2 u v = fst u * snd v - snd u * fst v"

definition dot2 :: "Point2 \<Rightarrow> Point2 \<Rightarrow> rat" where
  "dot2 u v = fst u * fst v + snd u * snd v"

definition line_from_points :: "Point2 \<Rightarrow> Point2 \<Rightarrow> Line2" where
  "line_from_points p q =
     (case (p, q) of ((px, py), (qx, qy)) \<Rightarrow>
        if py = qy then
          (if px < qx then (0, 1, - py)
           else if qx = px then (0, 0, 0)
           else (0, - 1, py))
        else if qx = px then
          (if py < qy then (- 1, 0, px)
           else if qy = py then (0, 0, 0)
           else (1, 0, - px))
        else (py - qy, qx - px, - px * (py - qy) - py * (qx - px)))"

definition supporting_line :: "Segment2 \<Rightarrow> Line2" where
  "supporting_line s = line_from_points (fst s) (snd s)"

definition sign_of_determinant :: "rat \<Rightarrow> rat \<Rightarrow> rat \<Rightarrow> rat \<Rightarrow> rat" where
  "sign_of_determinant a00 a01 a10 a11 = sgn (a00 * a11 - a10 * a01)"

definition line_equal :: "Line2 \<Rightarrow> Line2 \<Rightarrow> bool" where
  "line_equal l1 l2 =
     (case (l1, l2) of ((l1a, l1b, l1c), (l2a, l2b, l2c)) \<Rightarrow>
        if sign_of_determinant l1a l1b l2a l2b \<noteq> 0 then False
        else if sgn l1a \<noteq> 0
          then sgn l1a = sgn l2a \<and> sign_of_determinant l1a l1c l2a l2c = 0
          else sgn l1b = sgn l2b \<and> sign_of_determinant l1b l1c l2b l2c = 0)"

definition segment_has_on :: "Segment2 \<Rightarrow> Point2 \<Rightarrow> bool" where
  "segment_has_on s p \<longleftrightarrow>
     cross2 (vsub (snd s) (fst s)) (vsub p (fst s)) = 0
     \<and> min (fst (fst s)) (fst (snd s)) \<le> fst p \<and> fst p \<le> max (fst (fst s)) (fst (snd s))
     \<and> min (snd (fst s)) (snd (snd s)) \<le> snd p \<and> snd p \<le> max (snd (fst s)) (snd (snd s))"

definition edge :: "Polygon \<Rightarrow> nat \<Rightarrow> Segment2" where
  "edge p i = (p ! i, p ! (Suc i mod length p))"

text \<open>
  \<open>simplifyPolygon\<close> touches the outer boundary only. The first loop collects every index
  \<open>i\<close> from 1 on whose edges \<open>i - 1\<close> and \<open>i\<close> have equal supporting lines; the second
  erases the collected vertices from the back. It returns whether anything was collected.
\<close>

definition erase :: "'a list \<Rightarrow> nat \<Rightarrow> 'a list" where
  "erase xs i = take i xs @ drop (Suc i) xs"

definition verticesToRemove :: "Polygon \<Rightarrow> nat list" where
  "verticesToRemove boundary =
     filter (\<lambda>i. line_equal (supporting_line (edge boundary (i - 1)))
                             (supporting_line (edge boundary i)))
            [1..<length boundary]"

definition simplifyPolygon :: "PolygonWithHoles \<Rightarrow> bool \<times> PolygonWithHoles" where
  "simplifyPolygon poly =
     (let boundary = outer_boundary poly;
          toRemove = verticesToRemove boundary
      in (toRemove \<noteq> [], poly\<lparr>outer_boundary := foldl erase boundary (rev toRemove)\<rparr>))"

subsection \<open>Equal lines\<close>

text \<open>
  The geometry behind the coefficients. \<open>ray a b\<close> is the point \<open>a\<close> with the direction from
  \<open>a\<close> to \<open>b\<close>; two rays lie on one line and point the same way when the directions are
  parallel with a positive scalar product and the second point lies on the first line.
\<close>

definition ray :: "Point2 \<Rightarrow> Point2 \<Rightarrow> Point2 \<times> Point2" where
  "ray a b = (a, vsub b a)"

definition sameRay :: "Point2 \<times> Point2 \<Rightarrow> Point2 \<times> Point2 \<Rightarrow> bool" where
  "sameRay l m \<longleftrightarrow>
     cross2 (snd l) (snd m) = 0 \<and> 0 < dot2 (snd l) (snd m)
     \<and> cross2 (snd l) (vsub (fst m) (fst l)) = 0"

lemma parallel_scale:
  assumes "cross2 d w = 0" "0 < dot2 d d"
  shows "w = (dot2 d w / dot2 d d * fst d, dot2 d w / dot2 d d * snd d)"
proof -
  obtain dx dy where d: "d = (dx, dy)" by (cases d)
  obtain wx wy where w: "w = (wx, wy)" by (cases w)
  from assms(1) have c: "dx * wy = dy * wx" by (simp add: cross2_def d w)
  from assms(2) have nz: "dx * dx + dy * dy \<noteq> 0" unfolding dot2_def d by auto
  have "wx * (dx * dx + dy * dy) = (dx * wx + dy * wy) * dx + dy * (dy * wx - dx * wy)"
    by (simp add: algebra_simps)
  with c have x: "wx * (dx * dx + dy * dy) = (dx * wx + dy * wy) * dx" by simp
  have "wy * (dx * dx + dy * dy) = (dx * wx + dy * wy) * dy + dx * (dx * wy - dy * wx)"
    by (simp add: algebra_simps)
  with c have y: "wy * (dx * dx + dy * dy) = (dx * wx + dy * wy) * dy" by simp
  from x nz have "wx = (dx * wx + dy * wy) / (dx * dx + dy * dy) * dx"
    by (simp add: field_simps)
  moreover from y nz have "wy = (dx * wx + dy * wy) / (dx * dx + dy * dy) * dy"
    by (simp add: field_simps)
  ultimately show ?thesis by (simp add: d w dot2_def)
qed

lemma dot2_self_pos:
  assumes "0 < dot2 d e"
  shows "0 < dot2 d d"
proof -
  obtain dx dy where d: "d = (dx, dy)" by (cases d)
  have "dx \<noteq> 0 \<or> dy \<noteq> 0" using assms by (auto simp: dot2_def d)
  then have "0 < dx * dx + dy * dy" by (simp add: sum_squares_gt_zero_iff)
  then show ?thesis by (simp add: dot2_def d)
qed


lemma sameRayD:
  assumes "sameRay l m"
  obtains k t where "0 < k" "0 < dot2 (snd l) (snd l)"
    "snd m = (k * fst (snd l), k * snd (snd l))"
    "fst m = (fst (fst l) + t * fst (snd l), snd (fst l) + t * snd (snd l))"
proof -
  let ?d = "snd l"
  from assms have c: "cross2 ?d (snd m) = 0" and p: "0 < dot2 ?d (snd m)"
    and q: "cross2 ?d (vsub (fst m) (fst l)) = 0" by (simp_all add: sameRay_def)
  have dd: "0 < dot2 ?d ?d" by (rule dot2_self_pos[OF p])
  let ?k = "dot2 ?d (snd m) / dot2 ?d ?d"
  let ?t = "dot2 ?d (vsub (fst m) (fst l)) / dot2 ?d ?d"
  have k: "0 < ?k" using p dd by simp
  have m: "snd m = (?k * fst ?d, ?k * snd ?d)" by (rule parallel_scale[OF c dd])
  have "vsub (fst m) (fst l) = (?t * fst ?d, ?t * snd ?d)" by (rule parallel_scale[OF q dd])
  then have "fst m = (fst (fst l) + ?t * fst ?d, snd (fst l) + ?t * snd ?d)"
    by (cases "fst m") (auto simp: vsub_def)
  with k dd m show ?thesis using that by blast
qed

lemma sameRayI:
  assumes "0 < k" "0 < dot2 d d"
  shows "sameRay (p, d) ((fst p + t * fst d, snd p + t * snd d), (k * fst d, k * snd d))"
proof -
  obtain dx dy where d: "d = (dx, dy)" by (cases d)
  have "0 < k * (dx * dx + dy * dy)" using assms by (simp add: dot2_def d)
  then have "0 < dx * (k * dx) + dy * (k * dy)" by (simp add: algebra_simps)
  then show ?thesis
    by (simp add: sameRay_def cross2_def dot2_def vsub_def d algebra_simps)
qed

lemma sameRay_sym:
  assumes "sameRay l m"
  shows "sameRay m l"
proof -
  from assms obtain k t where k: "0 < k" and dd: "0 < dot2 (snd l) (snd l)"
    and m2: "snd m = (k * fst (snd l), k * snd (snd l))"
    and m1: "fst m = (fst (fst l) + t * fst (snd l), snd (fst l) + t * snd (snd l))"
    by (rule sameRayD)
  have "dot2 (snd m) (snd m) = k * k * dot2 (snd l) (snd l)"
    by (simp add: m2 dot2_def algebra_simps)
  then have dm: "0 < dot2 (snd m) (snd m)" using k dd by simp
  have "sameRay (fst m, snd m)
          ((fst (fst m) + (- t / k) * fst (snd m), snd (fst m) + (- t / k) * snd (snd m)),
           (1 / k * fst (snd m), 1 / k * snd (snd m)))"
    using k dm by (intro sameRayI) auto
  moreover have "(fst (fst m) + (- t / k) * fst (snd m), snd (fst m) + (- t / k) * snd (snd m)) = fst l"
    using k by (cases "fst l") (simp add: m1 m2)
  moreover have "(1 / k * fst (snd m), 1 / k * snd (snd m)) = snd l"
    using k by (cases "snd l") (simp add: m2)
  ultimately show ?thesis by simp
qed

lemma sameRay_trans:
  assumes "sameRay l m" "sameRay m n"
  shows "sameRay l n"
proof -
  from assms(1) obtain k t where k: "0 < k" and dd: "0 < dot2 (snd l) (snd l)"
    and m2: "snd m = (k * fst (snd l), k * snd (snd l))"
    and m1: "fst m = (fst (fst l) + t * fst (snd l), snd (fst l) + t * snd (snd l))"
    by (rule sameRayD)
  from assms(2) obtain k' t' where k': "0 < k'"
    and n2: "snd n = (k' * fst (snd m), k' * snd (snd m))"
    and n1: "fst n = (fst (fst m) + t' * fst (snd m), snd (fst m) + t' * snd (snd m))"
    by (rule sameRayD)
  have "sameRay (fst l, snd l)
          ((fst (fst l) + (t + t' * k) * fst (snd l), snd (fst l) + (t + t' * k) * snd (snd l)),
           ((k' * k) * fst (snd l), (k' * k) * snd (snd l)))"
    using k k' dd by (intro sameRayI) auto
  moreover have "(fst (fst l) + (t + t' * k) * fst (snd l), snd (fst l) + (t + t' * k) * snd (snd l)) = fst n"
    by (simp add: n1 m1 m2 algebra_simps)
  moreover have "((k' * k) * fst (snd l), (k' * k) * snd (snd l)) = snd n"
    by (simp add: n2 m2 algebra_simps)
  ultimately show ?thesis by simp
qed

lemma sameRay_refl: "a \<noteq> b \<Longrightarrow> sameRay (ray a b) (ray a b)"
proof -
  assume ne: "a \<noteq> b"
  obtain ax ay bx by' where ab: "a = (ax, ay)" "b = (bx, by')" by (cases a; cases b)
  have "bx - ax \<noteq> 0 \<or> by' - ay \<noteq> 0" using ne ab by auto
  then have "0 < (bx - ax) * (bx - ax) + (by' - ay) * (by' - ay)"
    by (simp only: sum_squares_gt_zero_iff)
  then show ?thesis
    by (simp add: sameRay_def ray_def cross2_def dot2_def vsub_def ab)
qed

lemma sameRay_chain:
  assumes "sameRay (ray a b) (ray b c)"
  shows "sameRay (ray a b) (ray a c)"
proof -
  let ?d = "vsub b a"
  from assms obtain k t where k: "0 < k" and dd: "0 < dot2 ?d ?d"
    and m2: "vsub c b = (k * fst ?d, k * snd ?d)"
    by (rule sameRayD) (simp add: ray_def)
  have "sameRay (a, ?d) ((fst a + 0 * fst ?d, snd a + 0 * snd ?d), ((1 + k) * fst ?d, (1 + k) * snd ?d))"
    using k dd by (intro sameRayI) auto
  moreover have "((1 + k) * fst ?d, (1 + k) * snd ?d) = vsub c a"
    using m2 by (cases a; cases b; cases c) (simp add: vsub_def algebra_simps)
  ultimately show ?thesis by (simp add: ray_def)
qed


text \<open>
  The coefficients of \<open>line_from_pointsC2\<close> are a positive multiple of the plain ones, and
  \<open>equal_lineC2\<close> does not see positive factors. So for a first segment of positive length
  the two supporting lines are equal exactly when the two rays lie on one line and point the
  same way; a first segment of length zero has the line \<open>(0, 0, 0)\<close>, which equals the
  vertical lines and itself.
\<close>

lemma line_equal_alt:
  "line_equal (a1, b1, c1) (a2, b2, c2) \<longleftrightarrow>
     a1 * b2 = a2 * b1
     \<and> (if a1 \<noteq> 0 then sgn a1 = sgn a2 \<and> a1 * c2 = a2 * c1
         else sgn b1 = sgn b2 \<and> b1 * c2 = b2 * c1)"
  by (auto simp: line_equal_def sign_of_determinant_def sgn_eq_0_iff)

lemma line_equal_scaled:
  assumes "0 < k" "0 < m"
  shows "line_equal (k * a1, k * b1, k * c1) (m * a2, m * b2, m * c2)
         = line_equal (a1, b1, c1) (a2, b2, c2)"
  using assms unfolding line_equal_alt
  by (auto simp: sgn_mult algebra_simps)

lemma line_from_points_scaled:
  obtains k where "0 < k"
    "line_from_points (px, py) (qx, qy) = (k * (py - qy), k * (qx - px), k * (px * qy - py * qx))"
proof -
  consider (h1) "py = qy" "px < qx" | (h2) "py = qy" "px = qx" | (h3) "py = qy" "qx < px"
    | (v1) "py \<noteq> qy" "px = qx" "py < qy" | (v2) "py \<noteq> qy" "px = qx" "qy < py"
    | (g) "py \<noteq> qy" "px \<noteq> qx"
    by (metis less_linear)
  then show ?thesis
  proof cases
    case h1
    then have "line_from_points (px, py) (qx, qy)
      = (1 / (qx - px) * (py - qy), 1 / (qx - px) * (qx - px), 1 / (qx - px) * (px * qy - py * qx))"
      by (simp add: line_from_points_def field_simps)
    moreover have "0 < 1 / (qx - px)" using h1 by simp
    ultimately show ?thesis using that by blast
  next
    case h2
    then have "line_from_points (px, py) (qx, qy)
      = (1 * (py - qy), 1 * (qx - px), 1 * (px * qy - py * qx))"
      by (simp add: line_from_points_def)
    then show ?thesis using that[of 1] by simp
  next
    case h3
    then have "line_from_points (px, py) (qx, qy)
      = (1 / (px - qx) * (py - qy), 1 / (px - qx) * (qx - px), 1 / (px - qx) * (px * qy - py * qx))"
      by (simp add: line_from_points_def field_simps)
    moreover have "0 < 1 / (px - qx)" using h3 by simp
    ultimately show ?thesis using that by blast
  next
    case v1
    then have "line_from_points (px, py) (qx, qy)
      = (1 / (qy - py) * (py - qy), 1 / (qy - py) * (qx - px), 1 / (qy - py) * (px * qy - py * qx))"
      by (simp add: line_from_points_def field_simps)
    moreover have "0 < 1 / (qy - py)" using v1 by simp
    ultimately show ?thesis using that by blast
  next
    case v2
    then have "line_from_points (px, py) (qx, qy)
      = (1 / (py - qy) * (py - qy), 1 / (py - qy) * (qx - px), 1 / (py - qy) * (px * qy - py * qx))"
      by (simp add: line_from_points_def field_simps)
    moreover have "0 < 1 / (py - qy)" using v2 by simp
    ultimately show ?thesis using that by blast
  next
    case g
    then have "line_from_points (px, py) (qx, qy)
      = (1 * (py - qy), 1 * (qx - px), 1 * (px * qy - py * qx))"
      by (simp add: line_from_points_def algebra_simps)
    then show ?thesis using that[of 1] by simp
  qed
qed


lemma sgn_eq_iff_mult_pos:
  fixes x y :: rat
  assumes "x \<noteq> 0"
  shows "sgn x = sgn y \<longleftrightarrow> 0 < x * y"
  using assms
  by (cases rule: linorder_cases[of x 0]; cases rule: linorder_cases[of y 0])
     (auto simp: sgn_if zero_less_mult_iff)

lemma general_line_equal:
  fixes ax ay ux uy cx cy vx vy :: rat
  assumes "ux \<noteq> 0 \<or> uy \<noteq> 0"
  shows "line_equal (- uy, ux, ax * (ay + uy) - ay * (ax + ux))
                    (- vy, vx, cx * (cy + vy) - cy * (cx + vx))
         \<longleftrightarrow> ux * vy - uy * vx = 0 \<and> 0 < ux * vx + uy * vy
              \<and> ux * (cy - ay) - uy * (cx - ax) = 0"
proof (cases "uy = 0")
  case True
  then have ux: "ux \<noteq> 0" using assms by simp
  have sg: "sgn ux = sgn vx \<longleftrightarrow> 0 < ux * vx"
    by (rule sgn_eq_iff_mult_pos[OF ux])
  show ?thesis
  proof
    assume "line_equal (- uy, ux, ax * (ay + uy) - ay * (ax + ux))
                    (- vy, vx, cx * (cy + vy) - cy * (cx + vx))"
    then have vy: "ux * vy = 0" and s: "sgn ux = sgn vx"
      and c: "ux * (cx * (cy + vy) - cy * (cx + vx)) = vx * (ax * ay - ay * (ax + ux))"
      using True by (auto simp: line_equal_alt)
    from vy ux have vy0: "vy = 0" by simp
    from s sg have pos: "0 < ux * vx" by simp
    from c vy0 have "ux * vx * (ay - cy) = 0" by (auto simp: algebra_simps)
    with pos have "ay = cy" by auto
    then show "ux * vy - uy * vx = 0 \<and> 0 < ux * vx + uy * vy
              \<and> ux * (cy - ay) - uy * (cx - ax) = 0"
      using True vy0 pos by simp
  next
    assume r: "ux * vy - uy * vx = 0 \<and> 0 < ux * vx + uy * vy
              \<and> ux * (cy - ay) - uy * (cx - ax) = 0"
    then have vy0: "vy = 0" and pos: "0 < ux * vx" and "ux * (cy - ay) = 0"
      using True ux by auto
    then have "cy = ay" using ux by simp
    then show "line_equal (- uy, ux, ax * (ay + uy) - ay * (ax + ux))
                    (- vy, vx, cx * (cy + vy) - cy * (cx + vx))"
      using True vy0 pos sg by (simp add: line_equal_alt algebra_simps)
  qed
next
  case False
  have N: "0 < ux * ux + uy * uy" using False by (simp add: sum_squares_gt_zero_iff)
  show ?thesis
  proof
    assume "line_equal (- uy, ux, ax * (ay + uy) - ay * (ax + ux))
                    (- vy, vx, cx * (cy + vy) - cy * (cx + vx))"
    then have par: "ux * vy = uy * vx" and s: "sgn uy = sgn vy"
      and c: "uy * (cx * (cy + vy) - cy * (cx + vx)) = vy * (ax * (ay + uy) - ay * (ax + ux))"
      using False by (auto simp: line_equal_alt algebra_simps)
    have pp: "0 < uy * vy" using s sgn_eq_iff_mult_pos[OF False] by simp
    then have vy: "vy \<noteq> 0" by auto
    have eq: "(ux * vx + uy * vy) * (uy * uy) = (uy * vy) * (ux * ux + uy * uy)"
      using par by algebra
    have "0 < (uy * vy) * (ux * ux + uy * uy)" using pp N by simp
    then have "0 < (ux * vx + uy * vy) * (uy * uy)" by (simp only: eq)
    then have dot: "0 < ux * vx + uy * vy" using False by (simp add: zero_less_mult_iff)
    have "vy * (ux * (cy - ay) - uy * (cx - ax)) = 0"
      using c par by algebra
    then have "ux * (cy - ay) - uy * (cx - ax) = 0" using vy by simp
    then show "ux * vy - uy * vx = 0 \<and> 0 < ux * vx + uy * vy
              \<and> ux * (cy - ay) - uy * (cx - ax) = 0"
      using par dot by simp
  next
    assume r: "ux * vy - uy * vx = 0 \<and> 0 < ux * vx + uy * vy
              \<and> ux * (cy - ay) - uy * (cx - ax) = 0"
    then have par: "ux * vy = uy * vx" and dot: "0 < ux * vx + uy * vy"
      and on: "ux * (cy - ay) = uy * (cx - ax)" by auto
    have eq: "(ux * vx + uy * vy) * (uy * uy) = (uy * vy) * (ux * ux + uy * uy)"
      using par by algebra
    have sq: "0 < uy * uy" using False by (auto simp: zero_less_mult_iff)
    have "0 < (ux * vx + uy * vy) * (uy * uy)" using dot sq by (rule mult_pos_pos)
    then have "0 < (uy * vy) * (ux * ux + uy * uy)" by (simp only: eq)
    then have pp: "0 < uy * vy" using N by (simp add: zero_less_mult_iff)
    then have s: "sgn uy = sgn vy" using sgn_eq_iff_mult_pos[OF False] by simp
    have c: "uy * (cx * (cy + vy) - cy * (cx + vx)) = vy * (ax * (ay + uy) - ay * (ax + ux))"
      using par on by algebra
    show "line_equal (- uy, ux, ax * (ay + uy) - ay * (ax + ux))
                    (- vy, vx, cx * (cy + vy) - cy * (cx + vx))"
      using False par s c by (simp add: line_equal_alt algebra_simps)
  qed
qed

lemma line_equal_sameRay:
  assumes "a \<noteq> b"
  shows "line_equal (supporting_line (a, b)) (supporting_line (c, d)) \<longleftrightarrow> sameRay (ray a b) (ray c d)"
proof -
  obtain ax ay bx by' cx cy dx dy where
    p: "a = (ax, ay)" "b = (bx, by')" "c = (cx, cy)" "d = (dx, dy)"
    by (cases a; cases b; cases c; cases d) auto
  define ux uy vx vy where "ux = bx - ax" and "uy = by' - ay" and "vx = dx - cx" and "vy = dy - cy"
  have nz: "ux \<noteq> 0 \<or> uy \<noteq> 0" using assms p by (auto simp: ux_def uy_def)
  obtain k where k: "0 < k"
    "line_from_points (ax, ay) (bx, by') = (k * (ay - by'), k * (bx - ax), k * (ax * by' - ay * bx))"
    by (rule line_from_points_scaled)
  obtain m where m: "0 < m"
    "line_from_points (cx, cy) (dx, dy) = (m * (cy - dy), m * (dx - cx), m * (cx * dy - cy * dx))"
    by (rule line_from_points_scaled)
  have "line_equal (supporting_line (a, b)) (supporting_line (c, d))
        = line_equal (ay - by', bx - ax, ax * by' - ay * bx) (cy - dy, dx - cx, cx * dy - cy * dx)"
    unfolding supporting_line_def p fst_conv snd_conv k(2) m(2)
    by (rule line_equal_scaled[OF k(1) m(1)])
  also have "\<dots> = line_equal (- uy, ux, ax * (ay + uy) - ay * (ax + ux))
                              (- vy, vx, cx * (cy + vy) - cy * (cx + vx))"
    by (simp add: ux_def uy_def vx_def vy_def)
  also have "\<dots> \<longleftrightarrow> ux * vy - uy * vx = 0 \<and> 0 < ux * vx + uy * vy
              \<and> ux * (cy - ay) - uy * (cx - ax) = 0"
    by (rule general_line_equal[OF nz])
  also have "\<dots> \<longleftrightarrow> sameRay (ray a b) (ray c d)"
    by (simp add: sameRay_def ray_def cross2_def dot2_def vsub_def p ux_def uy_def vx_def vy_def)
  finally show ?thesis .
qed

text \<open>A line through two equal points equals exactly the vertical lines and itself.\<close>

lemma line_equal_degenerate:
  "line_equal (supporting_line (a, a)) (supporting_line (c, d)) \<longleftrightarrow> fst c = fst d"
proof -
  obtain ax ay cx cy dx dy where p: "a = (ax, ay)" "c = (cx, cy)" "d = (dx, dy)"
    by (cases a; cases c; cases d) auto
  have l: "line_from_points (ax, ay) (ax, ay) = (0, 0, 0)" by (simp add: line_from_points_def)
  obtain m where m: "0 < m"
    "line_from_points (cx, cy) (dx, dy) = (m * (cy - dy), m * (dx - cx), m * (cx * dy - cy * dx))"
    by (rule line_from_points_scaled)
  show ?thesis
    unfolding supporting_line_def p fst_conv snd_conv l m(2)
    using m(1) by (auto simp: line_equal_alt sgn_if split: if_splits)
qed


abbreviation lineThrough :: "Point2 \<Rightarrow> Point2 \<Rightarrow> Line2" where
  "lineThrough a b \<equiv> supporting_line (a, b)"

text \<open>
  \<open>aligned a b c d\<close>: the segment from \<open>a\<close> to \<open>b\<close> has positive length and its supporting
  line equals that of the segment from \<open>c\<close> to \<open>d\<close>.
\<close>

definition aligned :: "Point2 \<Rightarrow> Point2 \<Rightarrow> Point2 \<Rightarrow> Point2 \<Rightarrow> bool" where
  "aligned a b c d \<longleftrightarrow> a \<noteq> b \<and> line_equal (lineThrough a b) (lineThrough c d)"

lemma sameRay_distinct:
  assumes "sameRay (ray a b) (ray c d)"
  shows "a \<noteq> b" "c \<noteq> d"
proof -
  from assms have "0 < dot2 (vsub b a) (vsub d c)" by (simp add: sameRay_def ray_def)
  then have "vsub b a \<noteq> (0, 0)" "vsub d c \<noteq> (0, 0)" by (auto simp: dot2_def)
  then show "a \<noteq> b" "c \<noteq> d" by (auto simp: vsub_def)
qed

lemma aligned_iff: "aligned a b c d \<longleftrightarrow> sameRay (ray a b) (ray c d)"
  using line_equal_sameRay[of a b c d] sameRay_distinct(1)[of a b c d]
  by (auto simp: aligned_def)

lemma aligned_distinct: "aligned a b c d \<Longrightarrow> a \<noteq> b \<and> c \<noteq> d"
  unfolding aligned_iff using sameRay_distinct by blast

lemma aligned_refl: "a \<noteq> b \<Longrightarrow> aligned a b a b"
  unfolding aligned_iff by (rule sameRay_refl)

lemma aligned_sym: "aligned a b c d \<Longrightarrow> aligned c d a b"
  unfolding aligned_iff by (rule sameRay_sym)

lemma aligned_trans: "aligned a b c d \<Longrightarrow> aligned c d e f \<Longrightarrow> aligned a b e f"
  unfolding aligned_iff by (rule sameRay_trans)

lemma aligned_chain: "aligned a b b c \<Longrightarrow> aligned a b a c"
  unfolding aligned_iff by (rule sameRay_chain)

lemma aligned_has_on:
  assumes "aligned u v v w"
  shows "segment_has_on (u, w) v"
proof -
  let ?d = "vsub v u"
  from assms have "sameRay (ray u v) (ray v w)" by (simp add: aligned_iff)
  then obtain k t where k: "0 < k" and m2: "vsub w v = (k * fst ?d, k * snd ?d)"
    by (rule sameRayD) (simp add: ray_def)
  obtain ux uy vx vy wx wy where p: "u = (ux, uy)" "v = (vx, vy)" "w = (wx, wy)"
    by (cases u; cases v; cases w) auto
  from m2 have wx: "wx = vx + k * (vx - ux)" and wy: "wy = vy + k * (vy - uy)"
    by (simp_all add: p vsub_def algebra_simps)
  have bx: "min ux wx \<le> vx \<and> vx \<le> max ux wx"
  proof (cases "ux \<le> vx")
    case True
    then have "0 \<le> k * (vx - ux)" using k by simp
    then show ?thesis using True wx by (simp add: min_def max_def)
  next
    case False
    then have "k * (vx - ux) \<le> 0" using k by (simp add: mult_le_0_iff)
    then show ?thesis using False wx by (simp add: min_def max_def)
  qed
  have by': "min uy wy \<le> vy \<and> vy \<le> max uy wy"
  proof (cases "uy \<le> vy")
    case True
    then have "0 \<le> k * (vy - uy)" using k by simp
    then show ?thesis using True wy by (simp add: min_def max_def)
  next
    case False
    then have "k * (vy - uy) \<le> 0" using k by (simp add: mult_le_0_iff)
    then show ?thesis using False wy by (simp add: min_def max_def)
  qed
  have "cross2 (vsub w u) (vsub v u) = 0"
    by (simp add: p cross2_def vsub_def wx wy algebra_simps)
  then show ?thesis using bx by' by (simp add: segment_has_on_def p)
qed

lemma has_on_end: "segment_has_on (v, w) v"
  by (simp add: segment_has_on_def cross2_def vsub_def)


subsection \<open>The erased boundary, vertex by vertex\<close>

text \<open>
  \<open>keepCorners prev vs first\<close> walks the vertices after the first one and keeps a vertex
  exactly when the edge into it and the edge out of it (to the next vertex of the original
  boundary, \<open>first\<close> after the last) lie on different lines. \<open>cornersOnly\<close> says that no two
  consecutive segments of a path lie on one line.
\<close>

fun keepCorners :: "Point2 \<Rightarrow> Point2 list \<Rightarrow> Point2 \<Rightarrow> Point2 list" where
  "keepCorners prev [] first = []"
| "keepCorners prev (v # vs) first =
     (if line_equal (lineThrough prev v) (lineThrough v (hd (vs @ [first])))
      then keepCorners v vs first else v # keepCorners v vs first)"

fun cornersOnly :: "Point2 list \<Rightarrow> bool" where
  "cornersOnly (x # y # z # r) \<longleftrightarrow>
     \<not> line_equal (lineThrough x y) (lineThrough y z) \<and> cornersOnly (y # z # r)"
| "cornersOnly r \<longleftrightarrow> True"

lemma erase_middle: "erase (pre @ v # post) (length pre) = pre @ post"
  by (simp add: erase_def)

lemma removal_as_recursion:
  assumes "b = pre @ prev # vs" "b \<noteq> []"
  shows "foldr (\<lambda>i acc. erase acc i)
           (filter (\<lambda>i. line_equal (supporting_line (edge b (i - 1))) (supporting_line (edge b i)))
                   [Suc (length pre)..<length b]) b
         = pre @ prev # keepCorners prev vs (hd b)"
  using assms
proof (induction vs arbitrary: pre prev)
  case Nil
  then show ?case by simp
next
  case (Cons v vs)
  let ?m = "Suc (length pre)"
  let ?coll = "\<lambda>i. line_equal (supporting_line (edge b (i - 1))) (supporting_line (edge b i))"
  have len: "length b = Suc ?m + length vs" using Cons.prems(1) by simp
  have b': "b = (pre @ [prev]) @ v # vs" using Cons.prems(1) by simp
  have IH: "foldr (\<lambda>i acc. erase acc i) (filter ?coll [Suc ?m..<length b]) b
            = (pre @ [prev]) @ v # keepCorners v vs (hd b)"
    using Cons.IH[OF b' Cons.prems(2)] by simp
  have upt: "[?m..<length b] = ?m # [Suc ?m..<length b]"
    using len by (simp add: upt_rec)
  have bm: "b ! ?m = v" "b ! (?m - 1) = prev"
    using Cons.prems(1) by (simp_all add: nth_append)
  have nxt: "b ! (Suc ?m mod length b) = hd (vs @ [hd b])"
  proof (cases vs)
    case Nil
    then have "Suc ?m = length b" using len by simp
    then show ?thesis using Nil Cons.prems(2) by (simp add: hd_conv_nth)
  next
    case (Cons w ws)
    then have "Suc ?m < length b" using len by simp
    moreover have "b ! Suc ?m = w" using b' Cons by (simp add: nth_append)
    ultimately show ?thesis using Cons by simp
  qed
  have coll: "?coll ?m \<longleftrightarrow> line_equal (lineThrough prev v) (lineThrough v (hd (vs @ [hd b])))"
    using bm nxt len by (simp add: edge_def)
  show ?case
  proof (cases "?coll ?m")
    case True
    have "foldr (\<lambda>i acc. erase acc i) (filter ?coll [?m..<length b]) b
          = erase ((pre @ [prev]) @ v # keepCorners v vs (hd b)) (length (pre @ [prev]))"
      unfolding upt using True IH by simp
    also have "\<dots> = (pre @ [prev]) @ keepCorners v vs (hd b)" by (rule erase_middle)
    finally show ?thesis using True coll by simp
  next
    case False
    have "foldr (\<lambda>i acc. erase acc i) (filter ?coll [?m..<length b]) b
          = (pre @ [prev]) @ v # keepCorners v vs (hd b)"
      unfolding upt using False IH by simp
    then show ?thesis using False coll by simp
  qed
qed

lemma simplified_boundary:
  "foldl erase (v0 # vs) (rev (verticesToRemove (v0 # vs))) = v0 # keepCorners v0 vs v0"
proof -
  have "foldl erase (v0 # vs) (rev (verticesToRemove (v0 # vs)))
        = foldr (\<lambda>i acc. erase acc i) (verticesToRemove (v0 # vs)) (v0 # vs)"
    by (simp add: foldl_conv_foldr)
  also have "\<dots> = [] @ v0 # keepCorners v0 vs (hd (v0 # vs))"
    unfolding verticesToRemove_def
    using removal_as_recursion[of "v0 # vs" "[]" v0 vs] by simp
  finally show ?thesis by simp
qed

text \<open>
  A vertex that is dropped lies on the segment from its predecessor to the next vertex that
  is kept (the first vertex after the last): the run of dropped vertices between them lies
  on one line, in order.
\<close>

lemma aligned_nextKept:
  "aligned a v v (hd (vs @ [first])) \<Longrightarrow> aligned a v v (hd (keepCorners v vs first @ [first]))"
proof (induction vs arbitrary: a v)
  case Nil
  then show ?case by simp
next
  case (Cons w ws)
  have avw: "aligned a v v w" using Cons.prems by simp
  show ?case
  proof (cases "line_equal (lineThrough v w) (lineThrough w (hd (ws @ [first])))")
    case True
    have "v \<noteq> w" using avw aligned_distinct by blast
    with True have "aligned v w w (hd (ws @ [first]))" by (simp add: aligned_def)
    then have "aligned v w w (hd (keepCorners w ws first @ [first]))" by (rule Cons.IH)
    then have "aligned v w v (hd (keepCorners w ws first @ [first]))" by (rule aligned_chain)
    with avw have "aligned a v v (hd (keepCorners w ws first @ [first]))" by (rule aligned_trans)
    then show ?thesis using True by simp
  next
    case False
    then show ?thesis using avw by simp
  qed
qed

lemma dropped_on_segment:
  assumes "line_equal (lineThrough prev v) (lineThrough v (hd (vs @ [first])))"
  shows "segment_has_on (prev, hd (keepCorners v vs first @ [first])) v"
proof (cases "prev = v")
  case True
  then show ?thesis by (simp add: has_on_end)
next
  case False
  with assms have "aligned prev v v (hd (vs @ [first]))" by (simp add: aligned_def)
  then have "aligned prev v v (hd (keepCorners v vs first @ [first]))" by (rule aligned_nextKept)
  then show ?thesis by (rule aligned_has_on)
qed

lemma keepCorners_corners:
  "distinct_adj (prev # vs @ [first]) \<Longrightarrow>
   a = prev \<or> aligned a prev prev (hd (vs @ [first])) \<Longrightarrow>
   cornersOnly (a # keepCorners prev vs first @ [first])
   \<and> aligned a (hd (keepCorners prev vs first @ [first])) prev (hd (vs @ [first]))"
proof (induction vs arbitrary: a prev)
  case Nil
  have ne: "prev \<noteq> first" using Nil.prems(1) by simp
  from Nil.prems(2) have "aligned a first prev first"
  proof
    assume "a = prev" then show ?thesis using aligned_refl[OF ne] by simp
  next
    assume h: "aligned a prev prev (hd ([] @ [first]))"
    then have h': "aligned a prev prev first" by simp
    from aligned_chain[OF h'] have "aligned a first a prev"
      by (rule aligned_sym)
    then show ?thesis using h' by (rule aligned_trans)
  qed
  then show ?case by simp
next
  case (Cons v vs)
  let ?next = "hd (vs @ [first])"
  let ?kept = "hd (keepCorners v vs first @ [first])"
  have ne: "prev \<noteq> v" and adj: "distinct_adj (v # vs @ [first])"
    using Cons.prems(1) by (simp_all add: distinct_adj_Cons)
  have av: "aligned a v prev v"
    using Cons.prems(2)
  proof
    assume "a = prev" then show ?thesis using aligned_refl[OF ne] by simp
  next
    assume "aligned a prev prev (hd ((v # vs) @ [first]))"
    then have h': "aligned a prev prev v" by simp
    from aligned_chain[OF h'] have "aligned a v a prev"
      by (rule aligned_sym)
    then show ?thesis using h' by (rule aligned_trans)
  qed
  have test: "line_equal (lineThrough prev v) (lineThrough v ?next) \<longleftrightarrow> aligned prev v v ?next"
    using ne by (simp add: aligned_def)
  show ?case
  proof (cases "line_equal (lineThrough prev v) (lineThrough v ?next)")
    case True
    then have pv: "aligned prev v v ?next" by (simp add: test)
    have "aligned a v v ?next"
      using av pv by (rule aligned_trans)
    then have pre: "a = v \<or> aligned a v v (hd (vs @ [first]))" by simp
    from Cons.IH[OF adj pre]
    have c: "cornersOnly (a # keepCorners v vs first @ [first])"
      and l: "aligned a ?kept v ?next"
      by auto
    have "aligned a ?kept prev v"
      using l aligned_sym[OF pv] by (rule aligned_trans)
    then show ?thesis using True c by simp
  next
    case False
    have pre: "v = v \<or> aligned v v v (hd (vs @ [first]))" by simp
    from Cons.IH[OF adj pre]
    have c: "cornersOnly (v # keepCorners v vs first @ [first])"
      and l: "aligned v ?kept v ?next"
      by auto
    have "\<not> line_equal (lineThrough a v) (lineThrough v ?kept)"
    proof
      assume "line_equal (lineThrough a v) (lineThrough v ?kept)"
      moreover have "a \<noteq> v" using av aligned_distinct by blast
      ultimately have x: "aligned a v v ?kept" by (simp add: aligned_def)
      have "aligned prev v a v" using av by (rule aligned_sym)
      then have "aligned prev v v ?kept"
        using x by (rule aligned_trans)
      then have "aligned prev v v ?next"
        using l by (rule aligned_trans)
      with False test show False by simp
    qed
    moreover obtain y r where yr: "keepCorners v vs first @ [first] = y # r"
      by (cases "keepCorners v vs first @ [first]") auto
    ultimately have "cornersOnly (a # v # keepCorners v vs first @ [first])"
      using c by (simp add: yr)
    then show ?thesis using False av by simp
  qed
qed


lemma cornersOnly_nth:
  "cornersOnly p \<Longrightarrow> 1 \<le> j \<Longrightarrow> Suc j < length p \<Longrightarrow>
   \<not> line_equal (lineThrough (p ! (j - 1)) (p ! j)) (lineThrough (p ! j) (p ! Suc j))"
proof (induction p arbitrary: j rule: cornersOnly.induct)
  case (1 x y z r)
  show ?case
  proof (cases "j = 1")
    case True
    then show ?thesis using "1.prems"(1) by simp
  next
    case False
    then obtain j' where j': "j = Suc j'" "1 \<le> j'" using "1.prems"(2) by (cases j) auto
    have "\<not> line_equal (lineThrough ((y # z # r) ! (j' - 1)) ((y # z # r) ! j'))
                        (lineThrough ((y # z # r) ! j') ((y # z # r) ! Suc j'))"
      using "1.IH"[of j'] "1.prems" j' by simp
    then show ?thesis using j' by (cases j') simp_all
  qed
qed simp_all

text \<open>
  C6, as the code has it. When no edge of the outer boundary has length zero, the outer
  boundary that \<open>simplifyPolygon\<close> leaves (and \<open>simplifyPolygons\<close> inserts back for each polygon
  of each colour) has no vertex with index 1 or more whose two edges lie on one supporting
  line, and the holes are as they were. Nothing is said of the two edges that meet at the
  first vertex.
\<close>

theorem simplifyPolygon_outer_corners:
  assumes "distinct_adj (outer_boundary poly @ [hd (outer_boundary poly)])"
    and "1 \<le> j" and "j < length (outer_boundary (snd (simplifyPolygon poly)))"
  shows "\<not> line_equal (supporting_line (edge (outer_boundary (snd (simplifyPolygon poly))) (j - 1)))
                      (supporting_line (edge (outer_boundary (snd (simplifyPolygon poly))) j))
         \<and> holes (snd (simplifyPolygon poly)) = holes poly"
proof -
  let ?b' = "outer_boundary (snd (simplifyPolygon poly))"
  have b'_def: "?b' = foldl erase (outer_boundary poly) (rev (verticesToRemove (outer_boundary poly)))"
    by (simp add: simplifyPolygon_def Let_def)
  have "outer_boundary poly \<noteq> []"
  proof
    assume "outer_boundary poly = []"
    then have "?b' = []" by (simp add: b'_def verticesToRemove_def)
    with assms(3) show False by simp
  qed
  then obtain v0 vs where b: "outer_boundary poly = v0 # vs" by (cases "outer_boundary poly") auto
  define out where "out = keepCorners v0 vs v0"
  have b': "?b' = v0 # out" unfolding b'_def b out_def by (rule simplified_boundary)
  have adj: "distinct_adj (v0 # vs @ [v0])" using assms(1) b by simp
  have "cornersOnly (v0 # out @ [v0])"
    using keepCorners_corners[OF adj, of v0] by (simp add: out_def)
  then have c: "cornersOnly (?b' @ [v0])" by (simp add: b')
  have j: "Suc j < length (?b' @ [v0])" using assms(3) by simp
  have n: "\<not> line_equal (lineThrough ((?b' @ [v0]) ! (j - 1)) ((?b' @ [v0]) ! j))
                         (lineThrough ((?b' @ [v0]) ! j) ((?b' @ [v0]) ! Suc j))"
    by (rule cornersOnly_nth[OF c assms(2) j])
  obtain j' where j': "j = Suc j'" using assms(2) by (cases j) auto
  have e1: "edge ?b' (j - 1) = ((?b' @ [v0]) ! (j - 1), (?b' @ [v0]) ! j)"
    using assms(3) unfolding j' by (simp add: edge_def nth_append)
  have "?b' ! (Suc j mod length ?b') = (?b' @ [v0]) ! Suc j"
  proof (cases "Suc j < length ?b'")
    case True
    then show ?thesis by (simp add: nth_append)
  next
    case False
    then have "Suc j = length ?b'" using assms(3) by simp
    then show ?thesis using b' by (simp add: nth_append)
  qed
  then have e2: "edge ?b' j = ((?b' @ [v0]) ! j, (?b' @ [v0]) ! Suc j)"
    using assms(3) by (simp add: edge_def nth_append)
  show ?thesis using n e1 e2 by (simp add: simplifyPolygon_def Let_def)
qed

text \<open>
  A square whose hole has a vertex in the middle of its left side; the same square entered
  at the middle of its lower side; and the square with an extra vertex on its lower side.
\<close>

definition squareWithHole :: PolygonWithHoles where
  "squareWithHole = \<lparr>outer_boundary = [(0, 0), (4, 0), (4, 4), (0, 4)],
                      holes = [[(1, 1), (1, 2), (1, 3), (3, 3), (3, 1)]]\<rparr>"

definition squareFromMidEdge :: PolygonWithHoles where
  "squareFromMidEdge = \<lparr>outer_boundary = [(2, 0), (4, 0), (4, 4), (0, 4), (0, 0)], holes = []\<rparr>"

definition squareExtraVertex :: PolygonWithHoles where
  "squareExtraVertex = \<lparr>outer_boundary = [(0, 0), (2, 0), (4, 0), (4, 4), (0, 4)], holes = []\<rparr>"

lemma simplifyPolygon_squareExtraVertex:
  "simplifyPolygon squareExtraVertex
     = (True, \<lparr>outer_boundary = [(0, 0), (4, 0), (4, 4), (0, 4)], holes = []\<rparr>)"
  by code_simp

theorem simplifyPolygon_outer_corners_witness:
  "distinct_adj (outer_boundary squareExtraVertex @ [hd (outer_boundary squareExtraVertex)])
   \<and> (1::nat) \<le> 1 \<and> 1 < length (outer_boundary (snd (simplifyPolygon squareExtraVertex)))
   \<and> \<not> line_equal (supporting_line (edge (outer_boundary (snd (simplifyPolygon squareExtraVertex))) (1 - 1)))
                    (supporting_line (edge (outer_boundary (snd (simplifyPolygon squareExtraVertex))) 1))
   \<and> holes (snd (simplifyPolygon squareExtraVertex)) = holes squareExtraVertex"
proof -
  have h1: "distinct_adj (outer_boundary squareExtraVertex @ [hd (outer_boundary squareExtraVertex)])"
    by (simp add: squareExtraVertex_def distinct_adj_Cons)
  have h3: "1 < length (outer_boundary (snd (simplifyPolygon squareExtraVertex)))"
    by (simp add: simplifyPolygon_squareExtraVertex)
  show ?thesis
    using simplifyPolygon_outer_corners[OF h1 order_refl h3] h1 h3 by simp
qed

text \<open>
  C6 as stated fails: the first two edges of the hole lie on one supporting line, and
  \<open>simplifyPolygon\<close> reports no change and leaves the hole's middle vertex in place.
\<close>

theorem simplifyPolygon_keeps_hole_vertex:
  "simplifyPolygon squareWithHole = (False, squareWithHole)
   \<and> holes squareWithHole = [[(1, 1), (1, 2), (1, 3), (3, 3), (3, 1)]]
   \<and> line_equal (supporting_line (edge [(1, 1), (1, 2), (1, 3), (3, 3), (3, 1)] 0))
                 (supporting_line (edge [(1, 1), (1, 2), (1, 3), (3, 3), (3, 1)] 1))"
  by code_simp

text \<open>
  The loop starts at index 1, so the pair of edges that meets at the first vertex is not
  compared either: entered at the middle of a side, the square keeps that vertex.
\<close>

lemma simplifyPolygon_keeps_first_vertex:
  "simplifyPolygon squareFromMidEdge = (False, squareFromMidEdge)
   \<and> line_equal (supporting_line (edge (outer_boundary squareFromMidEdge) 4))
                 (supporting_line (edge (outer_boundary squareFromMidEdge) 0))"
  by code_simp

section \<open>The coloured regions of one triangle: \<open>TriangleDetail\<close> (TriangleDetail.cpp)\<close>

text \<open>
  A CGAL polygon set is taken as the region it covers, an element of a Boolean algebra:
  \<open>join\<close> is \<open>sup\<close>, \<open>intersection\<close> is \<open>inf\<close>, \<open>difference\<close> is \<open>-\<close>, the empty set is
  \<open>bot\<close>. What CGAL, glm and the headers outside the repository's files supply is collected
  in a record that every operation takes as its first argument:
  \<^item> \<open>polygonSet\<close> and \<open>polygonWithHolesSet\<close>: the set holding one polygon (with holes);
  \<^item> \<open>polygons_with_holes\<close>: the polygons a set is made of;
  \<^item> \<open>constrainedTriangulation\<close>: the triangulation that holds after the given segments
    were inserted as constraints, in this order;
  \<^item> \<open>to_glm\<close>: \<open>toGlmVec\<close> of \<open>to_3d\<close> in the given plane; \<open>squared_area\<close> of the
    floating-point triangle; \<open>facing\<close>: \<open>glm::dot(n, glm::cross(b - a, c - a))\<close>;
  \<^item> \<open>defaultColor\<close>: the colour of a \<open>DataTriangle\<close> constructed from three vertices and a
    normal (Triangle.h).
  A \<open>DataTriangle\<close> carries its three vertices and its normal; \<open>std::map\<close> is an association
  list with increasing keys.
\<close>

record ('r, 'plane, 'vec, 'f) Kernel =
  polygonSet :: "Polygon \<Rightarrow> 'r"
  polygonWithHolesSet :: "PolygonWithHoles \<Rightarrow> 'r"
  polygons_with_holes :: "'r \<Rightarrow> PolygonWithHoles list"
  constrainedTriangulation :: "Segment2 list \<Rightarrow> ConstrainedTriangulation"
  to_glm :: "'plane \<Rightarrow> Point2 \<Rightarrow> 'vec"
  squared_area :: "'vec \<Rightarrow> 'vec \<Rightarrow> 'vec \<Rightarrow> 'f"
  facing :: "'vec \<Rightarrow> 'vec \<Rightarrow> 'vec \<Rightarrow> 'vec \<Rightarrow> 'f"
  defaultColor :: nat

type_synonym 'vec Tri3 = "'vec \<times> 'vec \<times> 'vec \<times> 'vec"
type_synonym Triangle2 = "Point2 \<times> Point2 \<times> Point2"

record ('r, 'plane, 'vec) TriangleDetail =
  mOriginal :: "'vec Tri3 DataTriangle"
  mOriginalPlane :: 'plane
  mBounds :: 'r
  mColoredPolys :: "(nat \<times> 'r) list"
  mColorChanged :: bool
  mTriangles :: "'vec Tri3 DataTriangle list"
  mTrianglesExact :: "Triangle2 list"

definition newDataTriangle ::
  "('r, 'plane, 'vec, 'f) Kernel \<Rightarrow> 'vec \<Rightarrow> 'vec \<Rightarrow> 'vec \<Rightarrow> 'vec \<Rightarrow> 'vec Tri3 DataTriangle" where
  "newDataTriangle K a b c n = \<lparr>color = defaultColor K, shape = (a, b, c, n)\<rparr>"

definition getNormal :: "'vec Tri3 DataTriangle \<Rightarrow> 'vec" where
  "getNormal t = (case shape t of (a, b, c, n) \<Rightarrow> n)"

text \<open>
  \<open>std::map::operator[]\<close> followed by an update of the entry: a missing key is inserted
  with the default value first.
\<close>

fun indexOrInsert :: "nat \<Rightarrow> 'a \<Rightarrow> ('a \<Rightarrow> 'a) \<Rightarrow> (nat \<times> 'a) list \<Rightarrow> (nat \<times> 'a) list" where
  "indexOrInsert k d f [] = [(k, f d)]"
| "indexOrInsert k d f ((k', v) # m) =
     (if k = k' then (k', f v) # m
      else if k < k' then (k, f d) # (k', v) # m
      else (k', v) # indexOrInsert k d f m)"

text \<open>
  \<open>polygonFromTriangle\<close>: the three vertices in order, reversed when they run clockwise
  (\<open>reverse_orientation\<close> keeps the first vertex).
\<close>

definition edges :: "Polygon \<Rightarrow> Segment2 list" where
  "edges p = map (edge p) [0..<length p]"

definition is_clockwise_oriented :: "Polygon \<Rightarrow> bool" where
  "is_clockwise_oriented pgn \<longleftrightarrow> (\<Sum>s \<leftarrow> edges pgn. cross2 (fst s) (snd s)) < 0"

definition reverse_orientation :: "Polygon \<Rightarrow> Polygon" where
  "reverse_orientation pgn = (case pgn of [] \<Rightarrow> [] | v # vs \<Rightarrow> v # rev vs)"

definition polygonFromTriangle :: "Triangle2 \<Rightarrow> Polygon" where
  "polygonFromTriangle tri =
     (case tri of (a, b, c) \<Rightarrow>
        let pgn = [a, b, c]
        in if is_clockwise_oriented pgn then reverse_orientation pgn else pgn)"

text \<open>
  \<open>updatePolysFromTriangles\<close>: the exact triangles are grouped by the colour of their
  floating-point twins, each group is joined into one set, and the flag is cleared.
\<close>

definition joinPolygons :: "('r::boolean_algebra, 'plane, 'vec, 'f) Kernel \<Rightarrow> Polygon list \<Rightarrow> 'r" where
  "joinPolygons K polygons = foldl (\<lambda>pSet p. sup pSet (polygonSet K p)) bot polygons"

definition updatePolysFromTriangles ::
  "('r::boolean_algebra, 'plane, 'vec, 'f) Kernel \<Rightarrow> ('r, 'plane, 'vec) TriangleDetail
     \<Rightarrow> error + ('r, 'plane, 'vec) TriangleDetail" where
  "updatePolysFromTriangles K s =
     (if length (mTriangles s) \<noteq> length (mTrianglesExact s) then Inl AssertionFailure
      else
        let polygonsByColor =
              foldl (\<lambda>m (tri, exact).
                       indexOrInsert (color tri) [] (\<lambda>ps. ps @ [polygonFromTriangle exact]) m)
                    [] (zip (mTriangles s) (mTrianglesExact s))
        in Inr (s\<lparr>mColoredPolys := map (\<lambda>(c, polygons). (c, joinPolygons K polygons)) polygonsByColor,
                   mColorChanged := False\<rparr>))"

text \<open>
  The body of the last loop of \<open>addTrianglesFromPolygon\<close> for one finite face. The level test
  is C++'s \<open>nestingLevel % 2 > 0\<close>, whose remainder has the sign of the level. The triangle is
  coloured, and then replaced by a newly constructed one when it faces away from the normal.
\<close>

definition emitFace ::
  "('r, 'plane, 'vec, 'f::{zero,linorder}) Kernel \<Rightarrow> nat \<Rightarrow> ('r, 'plane, 'vec) TriangleDetail \<Rightarrow> Face
     \<Rightarrow> ('r, 'plane, 'vec) TriangleDetail" where
  "emitFace K col s f =
     (if 0 < nestingLevel f smod 2 then
        (case vertex f of (p0, p1, p2) \<Rightarrow>
           let a = to_glm K (mOriginalPlane s) p0;
               b = to_glm K (mOriginalPlane s) p1;
               c = to_glm K (mOriginalPlane s) p2;
               n = getNormal (mOriginal s)
           in if 0 < squared_area K a b c then
                let tri = (newDataTriangle K a b c n)\<lparr>color := col\<rparr>;
                    tri' = (if facing K n a b c < 0 then newDataTriangle K a c b n else tri)
                in s\<lparr>mTriangles := mTriangles s @ [tri'],
                     mTrianglesExact := mTrianglesExact s @ [(p0, p1, p2)]\<rparr>
              else s)
      else s)"

definition finite_faces :: "ConstrainedTriangulation \<Rightarrow> Face list" where
  "finite_faces ct = filter (\<lambda>f. \<not> is_infinite f) (all_faces ct)"

definition addTrianglesFromPolygon ::
  "('r, 'plane, 'vec, 'f::{zero,linorder}) Kernel \<Rightarrow> PolygonWithHoles \<Rightarrow> nat
     \<Rightarrow> ('r, 'plane, 'vec) TriangleDetail \<Rightarrow> error + ('r, 'plane, 'vec) TriangleDetail" where
  "addTrianglesFromPolygon K poly col s =
     (let ct = constrainedTriangulation K
                 (edges (outer_boundary poly) @ concat (map edges (holes poly)))
      in case markDomains ct of
           Inl e \<Rightarrow> Inl e
         | Inr ct' \<Rightarrow> Inr (foldl (emitFace K col) s (finite_faces ct')))"

fun addTrianglesFromPolygons ::
  "('r, 'plane, 'vec, 'f::{zero,linorder}) Kernel \<Rightarrow> (PolygonWithHoles \<times> nat) list
     \<Rightarrow> ('r, 'plane, 'vec) TriangleDetail \<Rightarrow> error + ('r, 'plane, 'vec) TriangleDetail" where
  "addTrianglesFromPolygons K [] s = Inr s"
| "addTrianglesFromPolygons K ((poly, col) # rest) s =
     (case addTrianglesFromPolygon K poly col s of
        Inl e \<Rightarrow> Inl e
      | Inr s' \<Rightarrow> addTrianglesFromPolygons K rest s')"

definition updateTrianglesFromPolygons ::
  "('r::boolean_algebra, 'plane, 'vec, 'f::{zero,linorder}) Kernel \<Rightarrow> ('r, 'plane, 'vec) TriangleDetail
     \<Rightarrow> error + ('r, 'plane, 'vec) TriangleDetail" where
  "updateTrianglesFromPolygons K s =
     (case addTrianglesFromPolygons K
             (concat (map (\<lambda>(col, r). if r = bot then []
                                        else map (\<lambda>poly. (poly, col)) (polygons_with_holes K r))
                          (mColoredPolys s)))
             (s\<lparr>mTriangles := [], mTrianglesExact := []\<rparr>) of
        Inl e \<Rightarrow> Inl e
      | Inr s' \<Rightarrow> if length (mTriangles s') \<noteq> length (mTrianglesExact s') then Inl AssertionFailure
                  else Inr s')"

text \<open>
  \<open>simplifyPolygons\<close>: an empty set is skipped; otherwise its polygons are simplified, and
  when one of them changed the set is cleared and the polygons are inserted again.
\<close>

definition simplifyPolygonSet :: "('r::boolean_algebra, 'plane, 'vec, 'f) Kernel \<Rightarrow> 'r \<Rightarrow> 'r" where
  "simplifyPolygonSet K r =
     (if r = bot then r
      else
        let polys = map simplifyPolygon (polygons_with_holes K r)
        in if list_ex fst polys
           then foldl (\<lambda>pSet poly. sup pSet (polygonWithHolesSet K poly)) bot (map snd polys)
           else r)"

definition simplifyPolygons ::
  "('r::boolean_algebra, 'plane, 'vec, 'f) Kernel \<Rightarrow> ('r, 'plane, 'vec) TriangleDetail
     \<Rightarrow> ('r, 'plane, 'vec) TriangleDetail" where
  "simplifyPolygons K s =
     s\<lparr>mColoredPolys := map (\<lambda>(col, r). (col, simplifyPolygonSet K r)) (mColoredPolys s)\<rparr>"

text \<open>
  \<open>addPolygon\<close>, \<open>addCircle\<close> and \<open>paintSphere\<close>. The polygon of a circle is what
  \<open>polygonFromCircle\<close> makes of it; the floating-point values that go into it depend on the
  circle, so it is passed as a function of the circle.
\<close>

definition addPolygon ::
  "('r::boolean_algebra, 'plane, 'vec, 'f::{zero,linorder}) Kernel \<Rightarrow> Polygon \<Rightarrow> nat
     \<Rightarrow> ('r, 'plane, 'vec) TriangleDetail \<Rightarrow> error + ('r, 'plane, 'vec) TriangleDetail" where
  "addPolygon K poly col s =
     (let addedShape = inf (polygonSet K poly) (mBounds s)
      in case (if mColorChanged s then updatePolysFromTriangles K s else Inr s) of
           Inl e \<Rightarrow> Inl e
         | Inr s1 \<Rightarrow>
             let joined = indexOrInsert col bot (\<lambda>r. sup r addedShape) (mColoredPolys s1);
                 cut = map (\<lambda>(c, r). if c \<noteq> col then (c, r - addedShape) else (c, r)) joined
             in updateTrianglesFromPolygons K (simplifyPolygons K (s1\<lparr>mColoredPolys := cut\<rparr>)))"

definition addCircle ::
  "('r::boolean_algebra, 'plane, 'vec, 'f::{zero,linorder}) Kernel \<Rightarrow> ('circle \<Rightarrow> error + Polygon)
     \<Rightarrow> 'circle \<Rightarrow> nat \<Rightarrow> ('r, 'plane, 'vec) TriangleDetail
     \<Rightarrow> error + ('r, 'plane, 'vec) TriangleDetail" where
  "addCircle K polygonOfCircle circle col s =
     (case polygonOfCircle circle of
        Inl e \<Rightarrow> Inl e
      | Inr circlePoly \<Rightarrow> addPolygon K circlePoly col s)"

text \<open>
  The result of \<open>CGAL::intersection(sphere, plane)\<close> when there is one: a point or a circle.
\<close>

datatype ('point, 'circle) SphereIntersection = IsPoint 'point | IsCircle 'circle

text \<open>
  Modelled from the spec: \<open>SphereIntersectionVisitor\<close> is declared in TriangleDetail.h, which
  is not among the repository's files. The spec has a sphere stroke be a no-op when the
  intersection degenerates to a point, and the comment in \<open>paintSphere\<close> has it continue
  "only if the intersection is a circle (not a point or miss)": the visitor yields the
  circle for a circle and nothing for a point.
\<close>

definition SphereIntersectionVisitor :: "('point, 'circle) SphereIntersection \<Rightarrow> 'circle option" where
  "SphereIntersectionVisitor x = (case x of IsPoint p \<Rightarrow> None | IsCircle c \<Rightarrow> Some c)"

definition paintSphere ::
  "('r::boolean_algebra, 'plane, 'vec, 'f::{zero,linorder}) Kernel
     \<Rightarrow> ('sphere \<Rightarrow> 'plane \<Rightarrow> ('point, 'circle) SphereIntersection option)
     \<Rightarrow> ('circle \<Rightarrow> error + Polygon)
     \<Rightarrow> 'sphere \<Rightarrow> nat \<Rightarrow> ('r, 'plane, 'vec) TriangleDetail
     \<Rightarrow> error + ('r, 'plane, 'vec) TriangleDetail" where
  "paintSphere K intersection polygonOfCircle sphere col s =
     (case intersection sphere (mOriginalPlane s) of
        None \<Rightarrow> Inr s
      | Some x \<Rightarrow>
          (case SphereIntersectionVisitor x of
             None \<Rightarrow> Inr s
           | Some circleIntersection \<Rightarrow>
               (case polygonOfCircle circleIntersection of
                  Inl e \<Rightarrow> Inl e
                | Inr poly \<Rightarrow> addPolygon K poly col s)))"


subsection \<open>The partition of the triangle\<close>

text \<open>
  \<open>unionAll\<close> is the union of all colours' regions and \<open>regionOf m c\<close> the region of colour
  \<open>c\<close>, empty for a colour without an entry. A state is partitioned when the keys of its map
  increase, the union of all regions is the triangle, and the regions of two different
  colours have nothing in common.
\<close>

definition unionAll :: "(nat \<times> 'r::boolean_algebra) list \<Rightarrow> 'r" where
  "unionAll m = foldr (\<lambda>cr acc. sup (snd cr) acc) m bot"

definition regionOf :: "(nat \<times> 'r::boolean_algebra) list \<Rightarrow> nat \<Rightarrow> 'r" where
  "regionOf m c = (case map_of m c of None \<Rightarrow> bot | Some r \<Rightarrow> r)"

definition partitioned :: "('r::boolean_algebra, 'plane, 'vec) TriangleDetail \<Rightarrow> bool" where
  "partitioned s \<longleftrightarrow>
     sorted_wrt (<) (map fst (mColoredPolys s))
   \<and> unionAll (mColoredPolys s) = mBounds s
   \<and> (\<forall>c c'. c \<noteq> c' \<longrightarrow> inf (regionOf (mColoredPolys s) c) (regionOf (mColoredPolys s) c') = bot)"

lemma unionAll_simps [simp]:
  "unionAll [] = bot" "unionAll ((c, r) # m) = sup r (unionAll m)"
  by (simp_all add: unionAll_def)

lemma indexOrInsert_keys:
  "set (map fst (indexOrInsert k d f m)) = insert k (set (map fst m))"
  by (induction k d f m rule: indexOrInsert.induct) auto

lemma indexOrInsert_sorted:
  "sorted_wrt (<) (map fst m) \<Longrightarrow> sorted_wrt (<) (map fst (indexOrInsert k d f m))"
proof (induction m)
  case Nil then show ?case by simp
next
  case (Cons a m)
  obtain k' v where a: "a = (k', v)" by (cases a)
  have IH: "sorted_wrt (<) (map fst (indexOrInsert k d f m))" using Cons by simp
  have "\<forall>x \<in> set (map fst (indexOrInsert k d f m)). k' < x" if "k' < k"
    unfolding indexOrInsert_keys using Cons.prems that a by auto
  then show ?case using Cons.prems IH a by (auto simp: not_less)
qed

lemma map_of_sorted_less:
  "\<forall>x \<in> set (map fst m). (k::nat) < x \<Longrightarrow> map_of m k = None"
  by (force simp: map_of_eq_None_iff)

lemma indexOrInsert_map_of:
  "sorted_wrt (<) (map fst m) \<Longrightarrow>
   map_of (indexOrInsert k d f m) = (map_of m)(k \<mapsto> f (case map_of m k of None \<Rightarrow> d | Some v \<Rightarrow> v))"
proof (induction m)
  case Nil then show ?case by simp
next
  case (Cons a m)
  obtain k' v where a: "a = (k', v)" by (cases a)
  have srt: "sorted_wrt (<) (map fst m)" and hd: "\<forall>x \<in> set (map fst m). k' < x"
    using Cons.prems a by auto
  consider (eq) "k = k'" | (lt) "k < k'" | (gt) "k' < k" by (metis nat_neq_iff)
  then show ?case
  proof cases
    case eq
    then show ?thesis by (auto simp: a)
  next
    case lt
    have "map_of m k = None" using hd lt by (intro map_of_sorted_less) auto
    then show ?thesis using lt by (auto simp: a)
  next
    case gt
    then show ?thesis using Cons.IH[OF srt] by (auto simp: a)
  qed
qed

lemma unionAll_indexOrInsert:
  "unionAll (indexOrInsert c bot (\<lambda>r. sup r a) m) = sup (unionAll m) (a :: 'r::boolean_algebra)"
proof (induction m)
  case Nil then show ?case by simp
next
  case (Cons x m)
  obtain k' v where x: "x = (k', v)" by (cases x)
  show ?case using Cons by (auto simp: x sup_assoc sup_commute sup_left_commute)
qed

definition cutOthers :: "nat \<Rightarrow> 'r::boolean_algebra \<Rightarrow> (nat \<times> 'r) list \<Rightarrow> (nat \<times> 'r) list" where
  "cutOthers col a m = map (\<lambda>(c, r). if c \<noteq> col then (c, r - a) else (c, r)) m"

lemma cutOthers_keys: "map fst (cutOthers col a m) = map fst m"
  by (induction m) (auto simp: cutOthers_def)

lemma cutOthers_map_of:
  "map_of (cutOthers col a m) c = map_option (\<lambda>r. if c \<noteq> col then r - a else r) (map_of m c)"
  by (induction m) (auto simp: cutOthers_def)

lemma unionAll_cutOthers_sup:
  "sup (unionAll (cutOthers col a m)) a = sup (unionAll m) (a :: 'r::boolean_algebra)"
proof (induction m)
  case Nil then show ?case by (simp add: cutOthers_def)
next
  case (Cons x m)
  obtain c r where x: "x = (c, r)" by (cases x)
  have IH: "sup (unionAll (cutOthers col a m)) a = sup (unionAll m) a"
    using Cons by simp
  have d: "sup (r - a) a = sup r a"
    by (simp add: diff_eq sup_inf_distrib2)
  show ?case
  proof (cases "c = col")
    case True
    have "sup (unionAll (cutOthers col a ((c, r) # m))) a = sup r (sup (unionAll (cutOthers col a m)) a)"
      using True by (simp add: cutOthers_def sup.assoc)
    also have "\<dots> = sup r (sup (unionAll m) a)" by (simp only: IH)
    also have "\<dots> = sup (unionAll ((c, r) # m)) a" by (simp add: sup.assoc)
    finally show ?thesis by (simp add: x)
  next
    case False
    have "sup (unionAll (cutOthers col a ((c, r) # m))) a
            = sup (sup (r - a) a) (sup (unionAll (cutOthers col a m)) a)"
      using False by (simp add: cutOthers_def sup.assoc sup.commute sup.left_commute)
    also have "\<dots> = sup (sup r a) (sup (unionAll m) a)" by (simp only: d IH)
    also have "\<dots> = sup (unionAll ((c, r) # m)) a"
      by (simp add: sup.assoc sup.commute sup.left_commute)
    finally show ?thesis by (simp add: x)
  qed
qed

lemma unionAll_ge: "map_of m c = Some r \<Longrightarrow> r \<le> unionAll (m :: (nat \<times> 'r::boolean_algebra) list)"
proof (induction m)
  case Nil then show ?case by simp
next
  case (Cons x m)
  obtain c' r' where x: "x = (c', r')" by (cases x)
  show ?case using Cons by (auto simp: x le_supI2 split: if_splits)
qed


lemma regionOf_painted:
  assumes "sorted_wrt (<) (map fst m)"
  shows "regionOf (cutOthers col a (indexOrInsert col bot (\<lambda>r. sup r a) m)) c
           = (if c = col then sup (regionOf m col) a else regionOf m c - (a :: 'r::boolean_algebra))"
proof -
  have m1: "map_of (indexOrInsert col bot (\<lambda>r. sup r a) m) = (map_of m)(col \<mapsto> sup (regionOf m col) a)"
    unfolding indexOrInsert_map_of[OF assms] by (simp add: regionOf_def)
  show ?thesis
    unfolding regionOf_def cutOthers_map_of m1
    by (auto split: option.splits)
qed

lemma paint_partition:
  fixes a :: "'r::boolean_algebra" and col :: nat
  assumes srt: "sorted_wrt (<) (map fst m)"
    and un: "unionAll m = B"
    and disj: "\<forall>c c'. c \<noteq> c' \<longrightarrow> inf (regionOf m c) (regionOf m c') = bot"
    and le: "a \<le> B"
  defines "m' \<equiv> cutOthers col a (indexOrInsert col bot (\<lambda>r. sup r a) m)"
  shows "sorted_wrt (<) (map fst m')"
    and "unionAll m' = B"
    and "\<forall>c c'. c \<noteq> c' \<longrightarrow> inf (regionOf m' c) (regionOf m' c') = bot"
proof -
  let ?m1 = "indexOrInsert col bot (\<lambda>r. sup r a) m"
  show "sorted_wrt (<) (map fst m')"
    unfolding m'_def cutOthers_keys by (rule indexOrInsert_sorted[OF srt])
  have reg: "regionOf m' c = (if c = col then sup (regionOf m col) a else regionOf m c - a)" for c
    unfolding m'_def by (rule regionOf_painted[OF srt])
  have "map_of ?m1 col = Some (sup (regionOf m col) a)"
    unfolding indexOrInsert_map_of[OF srt] by (simp add: regionOf_def)
  then have "map_of m' col = Some (sup (regionOf m col) a)"
    unfolding m'_def cutOthers_map_of by simp
  then have "sup (regionOf m col) a \<le> unionAll m'" by (rule unionAll_ge)
  then have a_le: "a \<le> unionAll m'" by simp
  have "sup (unionAll m') a = sup (unionAll ?m1) a"
    unfolding m'_def by (rule unionAll_cutOthers_sup)
  also have "\<dots> = sup B a" by (simp add: unionAll_indexOrInsert un sup.assoc)
  also have "\<dots> = B" using le by (simp add: sup.absorb1)
  finally have "sup (unionAll m') a = B" .
  then show "unionAll m' = B" using a_le by (simp add: sup.absorb1)
  show "\<forall>c c'. c \<noteq> c' \<longrightarrow> inf (regionOf m' c) (regionOf m' c') = bot"
  proof (intro allI impI)
    fix c c' :: nat assume ne: "c \<noteq> c'"
    have d: "inf (regionOf m c) (regionOf m c') = bot" using disj ne by blast
    have gen: "inf (sup x a) (y - a) = bot" if "inf x y = bot" for x y :: 'r
    proof -
      have "inf (sup x a) (y - a) = sup (inf x (y - a)) (inf a (y - a))"
        by (simp add: inf_sup_distrib2)
      also have "inf a (y - a) = bot" by (simp add: diff_eq inf.left_commute)
      also have "inf x (y - a) = inf (inf x y) (- a)" by (simp add: diff_eq inf.assoc)
      finally show ?thesis using that by simp
    qed
    have both: "inf (x - a) (y - a) = bot" if "inf x y = bot" for x y :: 'r
    proof -
      have "inf (x - a) (y - a) = inf (inf x y) (- a)"
        by (simp add: diff_eq inf.assoc inf.left_commute inf.commute)
      then show ?thesis using that by simp
    qed
    consider (l) "c = col" | (r) "c' = col" | (n) "c \<noteq> col" "c' \<noteq> col" by blast
    then show "inf (regionOf m' c) (regionOf m' c') = bot"
    proof cases
      case l
      then show ?thesis using ne gen[OF d] by (simp add: reg)
    next
      case r
      have "inf (regionOf m c') (regionOf m c) = bot" using d by (simp add: inf.commute)
      from gen[OF this] show ?thesis using r ne by (simp add: reg inf.commute)
    next
      case n
      then show ?thesis using both[OF d] by (simp add: reg)
    qed
  qed
qed


text \<open>Regenerating the soup changes the two triangle lists and nothing else.\<close>

definition soupCleared :: "('r, 'plane, 'vec) TriangleDetail \<Rightarrow> ('r, 'plane, 'vec) TriangleDetail" where
  "soupCleared s = s\<lparr>mTriangles := [], mTrianglesExact := []\<rparr>"

lemma emitFace_frame:
  "soupCleared (emitFace K col s f) = soupCleared s
   \<and> (length (mTriangles s) = length (mTrianglesExact s)
        \<longrightarrow> length (mTriangles (emitFace K col s f)) = length (mTrianglesExact (emitFace K col s f)))"
  by (cases "vertex f") (simp add: emitFace_def soupCleared_def Let_def)

lemma emitFaces_frame:
  "soupCleared (foldl (emitFace K col) s fs) = soupCleared s
   \<and> (length (mTriangles s) = length (mTrianglesExact s)
        \<longrightarrow> length (mTriangles (foldl (emitFace K col) s fs))
             = length (mTrianglesExact (foldl (emitFace K col) s fs)))"
proof (induction fs arbitrary: s)
  case Nil then show ?case by simp
next
  case (Cons f fs)
  show ?case using Cons[of "emitFace K col s f"] emitFace_frame[of K col s f] by simp
qed

lemma addTrianglesFromPolygon_total:
  assumes "wfTriangulation (constrainedTriangulation K
             (edges (outer_boundary poly) @ concat (map edges (holes poly))))"
  shows "\<exists>s'. addTrianglesFromPolygon K poly col s = Inr s' \<and> soupCleared s' = soupCleared s
     \<and> (length (mTriangles s) = length (mTrianglesExact s)
          \<longrightarrow> length (mTriangles s') = length (mTrianglesExact s'))"
proof -
  let ?ct = "constrainedTriangulation K (edges (outer_boundary poly) @ concat (map edges (holes poly)))"
  from markDomains_props[OF assms] obtain fs' where
    md: "markDomains ?ct = Inr (?ct\<lparr>all_faces := fs'\<rparr>)" by blast
  have "addTrianglesFromPolygon K poly col s
          = Inr (foldl (emitFace K col) s (finite_faces (?ct\<lparr>all_faces := fs'\<rparr>)))"
    by (simp add: addTrianglesFromPolygon_def md)
  then show ?thesis using emitFaces_frame[of K col s] by auto
qed

lemma addTrianglesFromPolygons_total:
  assumes "\<forall>cs. wfTriangulation (constrainedTriangulation K cs)"
  shows "\<exists>s'. addTrianglesFromPolygons K jobs s = Inr s' \<and> soupCleared s' = soupCleared s
     \<and> (length (mTriangles s) = length (mTrianglesExact s)
          \<longrightarrow> length (mTriangles s') = length (mTrianglesExact s'))"
proof (induction jobs arbitrary: s)
  case Nil then show ?case by simp
next
  case (Cons job jobs)
  obtain poly col where job: "job = (poly, col)" by (cases job)
  from addTrianglesFromPolygon_total[of K poly col s] assms obtain s1 where
    s1: "addTrianglesFromPolygon K poly col s = Inr s1" "soupCleared s1 = soupCleared s"
      "length (mTriangles s) = length (mTrianglesExact s)
         \<longrightarrow> length (mTriangles s1) = length (mTrianglesExact s1)" by blast
  from Cons[of s1] obtain s' where
    s': "addTrianglesFromPolygons K jobs s1 = Inr s'" "soupCleared s' = soupCleared s1"
      "length (mTriangles s1) = length (mTrianglesExact s1)
         \<longrightarrow> length (mTriangles s') = length (mTrianglesExact s')" by blast
  have "addTrianglesFromPolygons K (job # jobs) s = Inr s'" by (simp add: job s1(1) s'(1))
  then show ?case using s1(2,3) s'(2,3) by auto
qed

lemma updateTrianglesFromPolygons_total:
  assumes "\<forall>cs. wfTriangulation (constrainedTriangulation K cs)"
  shows "\<exists>s'. updateTrianglesFromPolygons K s = Inr s' \<and> soupCleared s' = soupCleared s
           \<and> length (mTriangles s') = length (mTrianglesExact s')"
proof -
  let ?jobs = "concat (map (\<lambda>(col, r). if r = bot then []
                              else map (\<lambda>poly. (poly, col)) (polygons_with_holes K r))
                          (mColoredPolys s))"
  from addTrianglesFromPolygons_total[OF assms, of ?jobs "s\<lparr>mTriangles := [], mTrianglesExact := []\<rparr>"]
  obtain s' where s': "addTrianglesFromPolygons K ?jobs (s\<lparr>mTriangles := [], mTrianglesExact := []\<rparr>) = Inr s'"
    "soupCleared s' = soupCleared (s\<lparr>mTriangles := [], mTrianglesExact := []\<rparr>)"
    "length (mTriangles s') = length (mTrianglesExact s')" by auto
  have "updateTrianglesFromPolygons K s = Inr s'"
    using s'(1,3) by (simp add: updateTrianglesFromPolygons_def)
  moreover have "soupCleared s' = soupCleared s" using s'(2) by (simp add: soupCleared_def)
  ultimately show ?thesis using s'(3) by blast
qed

lemma soupCleared_fields:
  assumes "soupCleared s' = soupCleared s"
  shows "mColoredPolys s' = mColoredPolys s" "mBounds s' = mBounds s"
    "mColorChanged s' = mColorChanged s" "mOriginal s' = mOriginal s"
    "mOriginalPlane s' = mOriginalPlane s"
proof -
  have "mColoredPolys (soupCleared s') = mColoredPolys (soupCleared s)"
    "mBounds (soupCleared s') = mBounds (soupCleared s)"
    "mColorChanged (soupCleared s') = mColorChanged (soupCleared s)"
    "mOriginal (soupCleared s') = mOriginal (soupCleared s)"
    "mOriginalPlane (soupCleared s') = mOriginalPlane (soupCleared s)"
    using assms by simp_all
  then show "mColoredPolys s' = mColoredPolys s" "mBounds s' = mBounds s"
    "mColorChanged s' = mColorChanged s" "mOriginal s' = mOriginal s"
    "mOriginalPlane s' = mOriginalPlane s"
    by (simp_all add: soupCleared_def)
qed

lemma addPolygon_clean:
  assumes simp: "\<forall>r. simplifyPolygonSet K r = r"
    and wf: "\<forall>cs. wfTriangulation (constrainedTriangulation K cs)"
    and part: "partitioned s" and clean: "\<not> mColorChanged s"
  shows "\<exists>s'. addPolygon K poly col s = Inr s' \<and> partitioned s' \<and> \<not> mColorChanged s'
           \<and> mBounds s' = mBounds s"
proof -
  let ?a = "inf (polygonSet K poly) (mBounds s)"
  let ?cut = "cutOthers col ?a (indexOrInsert col bot (\<lambda>r. sup r ?a) (mColoredPolys s))"
  let ?s2 = "s\<lparr>mColoredPolys := ?cut\<rparr>"
  have sp: "simplifyPolygons K ?s2 = ?s2"
  proof -
    have "map (\<lambda>(c, r). (c, simplifyPolygonSet K r)) ?cut = map (\<lambda>x. x) ?cut"
      using simp by (intro map_cong) auto
    then show ?thesis by (simp add: simplifyPolygons_def)
  qed
  from updateTrianglesFromPolygons_total[OF wf, of ?s2] obtain s' where
    s': "updateTrianglesFromPolygons K ?s2 = Inr s'" "soupCleared s' = soupCleared ?s2" by blast
  have eq: "addPolygon K poly col s = Inr s'"
    using clean s'(1) sp by (simp add: addPolygon_def Let_def cutOthers_def)
  note f = soupCleared_fields[OF s'(2)]
  have p: "sorted_wrt (<) (map fst (mColoredPolys s))" "unionAll (mColoredPolys s) = mBounds s"
    "\<forall>c c'. c \<noteq> c' \<longrightarrow> inf (regionOf (mColoredPolys s) c) (regionOf (mColoredPolys s) c') = bot"
    using part by (simp_all add: partitioned_def)
  have le: "?a \<le> mBounds s" by simp
  have "partitioned s'"
    unfolding partitioned_def f
    using paint_partition[OF p le, of col] by simp
  then show ?thesis using eq f clean by simp
qed

subsection \<open>Strokes, one after the other\<close>

text \<open>
  A stroke is a call of \<open>addPolygon\<close> or of \<open>addCircle\<close>; \<open>paintAll\<close> applies a list of
  strokes and returns the state after each call.
\<close>

datatype 'circle Stroke = AddPolygon Polygon nat | AddCircle 'circle nat

fun applyStroke ::
  "('r::boolean_algebra, 'plane, 'vec, 'f::{zero,linorder}) Kernel \<Rightarrow> ('circle \<Rightarrow> error + Polygon)
     \<Rightarrow> 'circle Stroke \<Rightarrow> ('r, 'plane, 'vec) TriangleDetail
     \<Rightarrow> error + ('r, 'plane, 'vec) TriangleDetail" where
  "applyStroke K polygonOfCircle (AddPolygon poly col) s = addPolygon K poly col s"
| "applyStroke K polygonOfCircle (AddCircle circle col) s = addCircle K polygonOfCircle circle col s"

fun paintAll ::
  "('r::boolean_algebra, 'plane, 'vec, 'f::{zero,linorder}) Kernel \<Rightarrow> ('circle \<Rightarrow> error + Polygon)
     \<Rightarrow> 'circle Stroke list \<Rightarrow> ('r, 'plane, 'vec) TriangleDetail
     \<Rightarrow> error + ('r, 'plane, 'vec) TriangleDetail list" where
  "paintAll K polygonOfCircle [] s = Inr []"
| "paintAll K polygonOfCircle (stroke # strokes) s =
     (case applyStroke K polygonOfCircle stroke s of
        Inl e \<Rightarrow> Inl e
      | Inr s' \<Rightarrow>
          (case paintAll K polygonOfCircle strokes s' of
             Inl e \<Rightarrow> Inl e
           | Inr states \<Rightarrow> Inr (s' # states)))"

text \<open>
  What is assumed lies outside the repository's files:
  \<^item> \<open>setsAreUnions\<close>: a polygon set is the union of the polygons with holes it hands out, so
    clearing it and inserting them again gives the same set;
  \<^item> \<open>verticesOnEdgesIgnored\<close>: a vertex of an outer boundary (any but the first of the list)
    that lies on the segment from the vertex before it to the vertex after it can be erased
    without changing the set that holds the polygon;
  \<^item> \<open>triangulationsWellFormed\<close>: every triangulation CGAL hands back has valid neighbour
    handles;
  \<^item> \<open>circlesDiscretised\<close>: \<open>polygonFromCircle\<close> passes its closing assertions for the circles
    that are painted.
\<close>

definition setsAreUnions :: "('r::boolean_algebra, 'plane, 'vec, 'f) Kernel \<Rightarrow> bool" where
  "setsAreUnions K \<longleftrightarrow>
     (\<forall>r. foldl (\<lambda>pSet poly. sup pSet (polygonWithHolesSet K poly)) bot (polygons_with_holes K r) = r)"

definition verticesOnEdgesIgnored :: "('r, 'plane, 'vec, 'f) Kernel \<Rightarrow> bool" where
  "verticesOnEdgesIgnored K \<longleftrightarrow>
     (\<forall>poly pre u v post.
        outer_boundary poly = pre @ u # v # post
        \<and> segment_has_on (u, hd (post @ [hd (pre @ [u])])) v
        \<longrightarrow> polygonWithHolesSet K (poly\<lparr>outer_boundary := pre @ u # post\<rparr>)
             = polygonWithHolesSet K poly)"

definition triangulationsWellFormed :: "('r, 'plane, 'vec, 'f) Kernel \<Rightarrow> bool" where
  "triangulationsWellFormed K \<longleftrightarrow> (\<forall>cs. wfTriangulation (constrainedTriangulation K cs))"

definition circlesDiscretised :: "('circle \<Rightarrow> error + Polygon) \<Rightarrow> 'circle Stroke list \<Rightarrow> bool" where
  "circlesDiscretised polygonOfCircle strokes \<longleftrightarrow>
     (\<forall>circle col. AddCircle circle col \<in> set strokes \<longrightarrow> (\<exists>p. polygonOfCircle circle = Inr p))"

text \<open>
  \<open>addPolygon\<close> reads the polygon sets when they are current, and rebuilds them from the
  triangle soup first when a colour was changed. \<open>soupRegion K s c\<close> is the union of the exact
  triangles whose floating-point twin has colour \<open>c\<close>; the soup is partitioned when its two
  lists have one length, all triangles together cover the triangle, and the triangles of two
  different colours have nothing in common. \<open>regionsPartitioned\<close> asks this of whichever of
  the two the next call reads.
\<close>

definition soupRegion ::
  "('r::boolean_algebra, 'plane, 'vec, 'f) Kernel \<Rightarrow> ('r, 'plane, 'vec) TriangleDetail \<Rightarrow> nat \<Rightarrow> 'r" where
  "soupRegion K s c =
     joinPolygons K (map (\<lambda>(tri, exact). polygonFromTriangle exact)
                         (filter (\<lambda>(tri, exact). color tri = c)
                                 (zip (mTriangles s) (mTrianglesExact s))))"

definition soupPartitioned ::
  "('r::boolean_algebra, 'plane, 'vec, 'f) Kernel \<Rightarrow> ('r, 'plane, 'vec) TriangleDetail \<Rightarrow> bool" where
  "soupPartitioned K s \<longleftrightarrow>
     length (mTriangles s) = length (mTrianglesExact s)
   \<and> joinPolygons K (map polygonFromTriangle (mTrianglesExact s)) = mBounds s
   \<and> (\<forall>c c'. c \<noteq> c' \<longrightarrow> inf (soupRegion K s c) (soupRegion K s c') = bot)"

definition regionsPartitioned ::
  "('r::boolean_algebra, 'plane, 'vec, 'f) Kernel \<Rightarrow> ('r, 'plane, 'vec) TriangleDetail \<Rightarrow> bool" where
  "regionsPartitioned K s \<longleftrightarrow> (if mColorChanged s then soupPartitioned K s else partitioned s)"

text \<open>
  \<open>simplifyPolygons\<close> keeps every region: each vertex that \<open>simplifyPolygon\<close> erases lies, at
  the time it is erased, on the segment from the vertex before it to the vertex after it.
\<close>

lemma keepCorners_region:
  assumes "verticesOnEdgesIgnored K"
  shows "hd (pre @ [prev]) = first \<Longrightarrow>
         polygonWithHolesSet K (poly\<lparr>outer_boundary := pre @ prev # keepCorners prev vs first\<rparr>)
         = polygonWithHolesSet K (poly\<lparr>outer_boundary := pre @ prev # vs\<rparr>)"
proof (induction vs arbitrary: pre prev)
  case Nil
  then show ?case by simp
next
  case (Cons v vs)
  let ?kc = "keepCorners v vs first"
  have "hd ((pre @ [prev]) @ [v]) = first" using Cons.prems by (cases pre) simp_all
  from Cons.IH[OF this]
  have IH: "polygonWithHolesSet K (poly\<lparr>outer_boundary := pre @ prev # v # ?kc\<rparr>)
            = polygonWithHolesSet K (poly\<lparr>outer_boundary := pre @ prev # v # vs\<rparr>)" by simp
  show ?case
  proof (cases "line_equal (lineThrough prev v) (lineThrough v (hd (vs @ [first])))")
    case True
    have on: "segment_has_on (prev, hd (?kc @ [hd (pre @ [prev])])) v"
      using dropped_on_segment[OF True] Cons.prems by simp
    let ?p = "poly\<lparr>outer_boundary := pre @ prev # v # ?kc\<rparr>"
    have "outer_boundary ?p = pre @ prev # v # ?kc" by simp
    with on assms have "polygonWithHolesSet K (?p\<lparr>outer_boundary := pre @ prev # ?kc\<rparr>)
                        = polygonWithHolesSet K ?p"
      unfolding verticesOnEdgesIgnored_def by blast
    then have "polygonWithHolesSet K (poly\<lparr>outer_boundary := pre @ prev # ?kc\<rparr>)
               = polygonWithHolesSet K ?p" by simp
    then show ?thesis using True IH by simp
  next
    case False
    then show ?thesis using IH by simp
  qed
qed

lemma simplifyPolygon_region:
  assumes "verticesOnEdgesIgnored K"
  shows "polygonWithHolesSet K (snd (simplifyPolygon poly)) = polygonWithHolesSet K poly"
proof (cases "outer_boundary poly")
  case Nil
  have "poly\<lparr>outer_boundary := outer_boundary poly\<rparr> = poly" by simp
  then have e: "poly\<lparr>outer_boundary := []\<rparr> = poly" using Nil by simp
  have "snd (simplifyPolygon poly) = poly\<lparr>outer_boundary := []\<rparr>"
    using Nil by (simp add: simplifyPolygon_def verticesToRemove_def)
  then show ?thesis by (simp only: e)
next
  case (Cons v0 vs)
  have "snd (simplifyPolygon poly) = poly\<lparr>outer_boundary := v0 # keepCorners v0 vs v0\<rparr>"
    by (simp add: simplifyPolygon_def Let_def Cons simplified_boundary)
  moreover have "polygonWithHolesSet K (poly\<lparr>outer_boundary := [] @ v0 # keepCorners v0 vs v0\<rparr>)
                 = polygonWithHolesSet K (poly\<lparr>outer_boundary := [] @ v0 # vs\<rparr>)"
    by (rule keepCorners_region[OF assms]) simp
  moreover have "poly\<lparr>outer_boundary := v0 # vs\<rparr> = poly"
  proof -
    have "poly\<lparr>outer_boundary := outer_boundary poly\<rparr> = poly" by simp
    then show ?thesis using Cons by simp
  qed
  ultimately show ?thesis by simp
qed

lemma simplifyPolygonSet_region:
  assumes "setsAreUnions K" "verticesOnEdgesIgnored K"
  shows "simplifyPolygonSet K r = r"
proof -
  let ?f = "\<lambda>pSet poly. sup pSet (polygonWithHolesSet K poly)"
  have same: "foldl ?f a (map (snd \<circ> simplifyPolygon) ps) = foldl ?f a ps" for a ps
    by (induction ps arbitrary: a) (simp_all add: simplifyPolygon_region[OF assms(2)])
  have "foldl ?f bot (polygons_with_holes K r) = r"
    using assms(1) by (simp add: setsAreUnions_def)
  then show ?thesis by (simp add: simplifyPolygonSet_def Let_def same)
qed

text \<open>
  \<open>updatePolysFromTriangles\<close> files each exact triangle under the colour of its twin; seen
  on the regions, every triangle is joined to the region of its colour (\<open>paintTriangle\<close>).
\<close>

lemma joinPolygons_snoc:
  "joinPolygons K (ps @ [p]) = sup (joinPolygons K ps) (polygonSet K p)"
  by (simp add: joinPolygons_def)

lemma joinPolygons_from:
  "foldl (\<lambda>pSet p. sup pSet (polygonSet K p)) a ps = sup a (joinPolygons K ps)"
  unfolding joinPolygons_def
  by (induction ps rule: rev_induct) (simp_all add: sup.assoc)

lemma joinPolygons_Cons:
  "joinPolygons K (p # ps) = sup (polygonSet K p) (joinPolygons K ps)"
proof -
  have "joinPolygons K (p # ps) = foldl (\<lambda>pSet p. sup pSet (polygonSet K p)) (polygonSet K p) ps"
    by (simp add: joinPolygons_def)
  then show ?thesis by (simp only: joinPolygons_from)
qed

lemma indexOrInsert_map_values:
  assumes "\<And>v. h (f v) = f' (h v)"
  shows "map (\<lambda>(c, v). (c, h v)) (indexOrInsert k d f m)
         = indexOrInsert k (h d) f' (map (\<lambda>(c, v). (c, h v)) m)"
  by (induction m) (auto simp: assms)

definition paintTriangle ::
  "('r::boolean_algebra, 'plane, 'vec, 'f) Kernel \<Rightarrow> (nat \<times> 'r) list
     \<Rightarrow> 'vec Tri3 DataTriangle \<times> Triangle2 \<Rightarrow> (nat \<times> 'r) list" where
  "paintTriangle K m z =
     indexOrInsert (color (fst z)) bot (\<lambda>r. sup r (polygonSet K (polygonFromTriangle (snd z)))) m"

lemma grouped_regions:
  "map (\<lambda>(c, polygons). (c, joinPolygons K polygons))
       (foldl (\<lambda>m (tri, exact). indexOrInsert (color tri) [] (\<lambda>ps. ps @ [polygonFromTriangle exact]) m)
              m zs)
   = foldl (paintTriangle K) (map (\<lambda>(c, polygons). (c, joinPolygons K polygons)) m) zs"
proof (induction zs arbitrary: m)
  case Nil
  then show ?case by simp
next
  case (Cons z zs)
  obtain tri exact where z: "z = (tri, exact)" by (cases z)
  have "map (\<lambda>(c, polygons). (c, joinPolygons K polygons))
          (indexOrInsert (color tri) [] (\<lambda>ps. ps @ [polygonFromTriangle exact]) m)
        = paintTriangle K (map (\<lambda>(c, polygons). (c, joinPolygons K polygons)) m) z"
    unfolding paintTriangle_def z fst_conv snd_conv
    using indexOrInsert_map_values[of "joinPolygons K" "\<lambda>ps. ps @ [polygonFromTriangle exact]"
        "\<lambda>r. sup r (polygonSet K (polygonFromTriangle exact))" "color tri" "[]" m]
    by (simp add: joinPolygons_snoc joinPolygons_def)
  then show ?case using Cons.IH by (simp add: z)
qed

lemma painted_regions:
  assumes "sorted_wrt (<) (map fst m)"
  shows "sorted_wrt (<) (map fst (foldl (paintTriangle K) m zs))
       \<and> unionAll (foldl (paintTriangle K) m zs)
           = sup (unionAll m) (joinPolygons K (map (\<lambda>(tri, exact). polygonFromTriangle exact) zs))
       \<and> (\<forall>c. regionOf (foldl (paintTriangle K) m zs) c
                = sup (regionOf m c)
                      (joinPolygons K (map (\<lambda>(tri, exact). polygonFromTriangle exact)
                                           (filter (\<lambda>(tri, exact). color tri = c) zs))))"
  using assms
proof (induction zs arbitrary: m)
  case Nil
  then show ?case by (simp add: joinPolygons_def)
next
  case (Cons z zs)
  obtain tri exact where z: "z = (tri, exact)" by (cases z)
  let ?a = "polygonSet K (polygonFromTriangle exact)"
  let ?m1 = "paintTriangle K m z"
  have m1: "?m1 = indexOrInsert (color tri) bot (\<lambda>r. sup r ?a) m"
    by (simp add: paintTriangle_def z)
  have srt1: "sorted_wrt (<) (map fst ?m1)"
    unfolding m1 by (rule indexOrInsert_sorted[OF Cons.prems])
  have un1: "unionAll ?m1 = sup (unionAll m) ?a"
    unfolding m1 by (rule unionAll_indexOrInsert)
  have reg1: "regionOf ?m1 c = (if c = color tri then sup (regionOf m c) ?a else regionOf m c)" for c
    unfolding m1 regionOf_def indexOrInsert_map_of[OF Cons.prems]
    by (auto split: option.splits)
  note IH = Cons.IH[OF srt1]
  have a: "sorted_wrt (<) (map fst (foldl (paintTriangle K) m (z # zs)))"
    using IH by simp
  have b: "unionAll (foldl (paintTriangle K) m (z # zs))
           = sup (unionAll m) (joinPolygons K (map (\<lambda>(tri, exact). polygonFromTriangle exact) (z # zs)))"
    using IH un1 by (simp add: z joinPolygons_Cons sup.assoc)
  have c: "regionOf (foldl (paintTriangle K) m (z # zs)) c
                = sup (regionOf m c)
                      (joinPolygons K (map (\<lambda>(tri, exact). polygonFromTriangle exact)
                                           (filter (\<lambda>(tri, exact). color tri = c) (z # zs))))" for c
    using IH reg1[of c] by (simp add: z joinPolygons_Cons sup.assoc)
  show ?case using a b c by blast
qed

lemma updatePolysFromTriangles_partition:
  assumes "soupPartitioned K s"
  shows "\<exists>s1. updatePolysFromTriangles K s = Inr s1 \<and> partitioned s1 \<and> \<not> mColorChanged s1
              \<and> mBounds s1 = mBounds s"
proof -
  let ?zs = "zip (mTriangles s) (mTrianglesExact s)"
  let ?m = "foldl (paintTriangle K) [] ?zs"
  have len: "length (mTriangles s) = length (mTrianglesExact s)"
    using assms by (simp add: soupPartitioned_def)
  have eq: "updatePolysFromTriangles K s = Inr (s\<lparr>mColoredPolys := ?m, mColorChanged := False\<rparr>)"
    using len grouped_regions[of K "[]" ?zs]
    by (simp add: updatePolysFromTriangles_def Let_def)
  have "map (\<lambda>(tri, exact). polygonFromTriangle exact) ?zs = map polygonFromTriangle (map snd ?zs)"
    by (simp add: case_prod_unfold)
  also have "\<dots> = map polygonFromTriangle (mTrianglesExact s)" using len by simp
  finally have all: "map (\<lambda>(tri, exact). polygonFromTriangle exact) ?zs
                     = map polygonFromTriangle (mTrianglesExact s)" .
  from painted_regions[of "[]" K ?zs]
  have srt: "sorted_wrt (<) (map fst ?m)"
    and un: "unionAll ?m = joinPolygons K (map polygonFromTriangle (mTrianglesExact s))"
    and reg: "\<And>c. regionOf ?m c = soupRegion K s c"
    by (simp_all add: all soupRegion_def regionOf_def)
  have "partitioned (s\<lparr>mColoredPolys := ?m, mColorChanged := False\<rparr>)"
    using assms srt un reg by (simp add: partitioned_def soupPartitioned_def)
  then show ?thesis using eq by simp
qed

lemma addPolygon_partition:
  assumes simp: "\<forall>r. simplifyPolygonSet K r = r"
    and wf: "\<forall>cs. wfTriangulation (constrainedTriangulation K cs)"
    and start: "regionsPartitioned K s"
  shows "\<exists>s'. addPolygon K poly col s = Inr s' \<and> partitioned s' \<and> \<not> mColorChanged s'
           \<and> mBounds s' = mBounds s"
proof (cases "mColorChanged s")
  case False
  then have "partitioned s" using start by (simp add: regionsPartitioned_def)
  then show ?thesis using False by (rule addPolygon_clean[OF simp wf])
next
  case True
  then have "soupPartitioned K s" using start by (simp add: regionsPartitioned_def)
  then obtain s1 where s1: "updatePolysFromTriangles K s = Inr s1" "partitioned s1"
    "\<not> mColorChanged s1" "mBounds s1 = mBounds s"
    using updatePolysFromTriangles_partition by blast
  have "addPolygon K poly col s = addPolygon K poly col s1"
    using True s1(1,3,4) by (simp add: addPolygon_def)
  then show ?thesis using addPolygon_clean[OF simp wf s1(2,3), of poly col] s1(4) by simp
qed

text \<open>
  C1. From a state whose regions partition the triangle (the polygon sets, or the triangle
  soup when the flag \<open>mColorChanged\<close> is set), every sequence of \<open>addPolygon\<close> and \<open>addCircle\<close>
  calls runs through, and after each call the union of all colours' regions is the triangle
  and the regions of any two different colours have an empty intersection.
\<close>

theorem partition_after_every_stroke:
  fixes K :: "('r::boolean_algebra, 'plane, 'vec, 'f::{zero,linorder}) Kernel"
  assumes "setsAreUnions K" and "verticesOnEdgesIgnored K" and "triangulationsWellFormed K"
    and "circlesDiscretised polygonOfCircle strokes"
    and "regionsPartitioned K s"
  shows "\<exists>states. paintAll K polygonOfCircle strokes s = Inr states
           \<and> length states = length strokes
           \<and> (\<forall>s' \<in> set states. partitioned s' \<and> mBounds s' = mBounds s)"
  using assms(4,5)
proof (induction strokes arbitrary: s)
  case Nil
  then show ?case by simp
next
  case (Cons stroke strokes)
  have simp: "\<forall>r. simplifyPolygonSet K r = r"
    using simplifyPolygonSet_region[OF assms(1,2)] by simp
  have wf: "\<forall>cs. wfTriangulation (constrainedTriangulation K cs)"
    using assms(3) by (simp add: triangulationsWellFormed_def)
  have rest: "circlesDiscretised polygonOfCircle strokes"
    using Cons.prems(1) by (simp add: circlesDiscretised_def)
  have "\<exists>s1. applyStroke K polygonOfCircle stroke s = Inr s1 \<and> partitioned s1
           \<and> \<not> mColorChanged s1 \<and> mBounds s1 = mBounds s"
  proof (cases stroke)
    case (AddPolygon poly col)
    then show ?thesis
      using addPolygon_partition[OF simp wf Cons.prems(2), of poly col] by simp
  next
    case (AddCircle circle col)
    then obtain p where "polygonOfCircle circle = Inr p"
      using Cons.prems(1) by (auto simp: circlesDiscretised_def)
    then show ?thesis
      using addPolygon_partition[OF simp wf Cons.prems(2), of p col] AddCircle
      by (simp add: addCircle_def)
  qed
  then obtain s1 where s1: "applyStroke K polygonOfCircle stroke s = Inr s1" "partitioned s1"
    "\<not> mColorChanged s1" "mBounds s1 = mBounds s" by blast
  have next_start: "regionsPartitioned K s1" using s1(2,3) by (simp add: regionsPartitioned_def)
  from Cons.IH[OF rest next_start] obtain states where
    st: "paintAll K polygonOfCircle strokes s1 = Inr states" "length states = length strokes"
      "\<forall>s' \<in> set states. partitioned s' \<and> mBounds s' = mBounds s1" by blast
  have "paintAll K polygonOfCircle (stroke # strokes) s = Inr (s1 # states)"
    by (simp add: s1(1) st(1))
  then show ?case using s1(2,4) st(2,3) by auto
qed


subsection \<open>A triangle of two cells\<close>

text \<open>
  The triangle \<open>(0,0) (4,0) (0,4)\<close> in the plane \<open>z = 0\<close>, cut by the segment from its right
  angle to the middle of the opposite side into a lower and an upper cell; a region is the
  pair of flags of the cells it covers. The kernel knows the three polygons and the circle
  polygon of the previous section (which covers the whole triangle), triangulates a polygon
  of three edges by one finite face and three infinite ones, and computes the
  floating-point quantities exactly, which they are for these coordinates.
\<close>

type_synonym Vec3 = "rat \<times> rat \<times> rat"
type_synonym Cells = "bool \<times> bool"

definition polyT :: Polygon where "polyT = [(0, 0), (4, 0), (0, 4)]"
definition polyL :: Polygon where "polyL = [(0, 0), (4, 0), (2, 2)]"
definition polyU :: Polygon where "polyU = [(0, 0), (2, 2), (0, 4)]"

definition cellsOfPolygon :: "Polygon \<Rightarrow> Cells" where
  "cellsOfPolygon p =
     (if p = polyT \<or> p = polygon4 then (True, True)
      else if p = polyL then (True, False)
      else if p = polyU then (False, True)
      else (False, False))"

definition polygonsOfCells :: "Cells \<Rightarrow> PolygonWithHoles list" where
  "polygonsOfCells r =
     (if r = (True, True) then [\<lparr>outer_boundary = polyT, holes = []\<rparr>]
      else if r = (True, False) then [\<lparr>outer_boundary = polyL, holes = []\<rparr>]
      else if r = (False, True) then [\<lparr>outer_boundary = polyU, holes = []\<rparr>]
      else [])"

definition triangleCT :: "Point2 \<Rightarrow> Point2 \<Rightarrow> Point2 \<Rightarrow> ConstrainedTriangulation" where
  "triangleCT a b c =
     \<lparr>all_faces =
        [\<lparr>vertex = (a, b, c), neighbor = (1, 2, 3), is_constrained = (True, True, True),
          is_infinite = False, nestingLevel = 0\<rparr>,
         \<lparr>vertex = (c, b, b), neighbor = (0, 2, 3), is_constrained = (True, False, False),
          is_infinite = True, nestingLevel = 0\<rparr>,
         \<lparr>vertex = (a, c, c), neighbor = (0, 3, 1), is_constrained = (True, False, False),
          is_infinite = True, nestingLevel = 0\<rparr>,
         \<lparr>vertex = (b, a, a), neighbor = (0, 1, 2), is_constrained = (True, False, False),
          is_infinite = True, nestingLevel = 0\<rparr>],
      infinite_face = 1\<rparr>"

definition emptyCT :: ConstrainedTriangulation where
  "emptyCT =
     \<lparr>all_faces = [\<lparr>vertex = ((0, 0), (0, 0), (0, 0)), neighbor = (0, 0, 0),
                     is_constrained = (False, False, False), is_infinite = True,
                     nestingLevel = 0\<rparr>],
      infinite_face = 0\<rparr>"

definition triangulationOf :: "Segment2 list \<Rightarrow> ConstrainedTriangulation" where
  "triangulationOf cs =
     (case cs of [e0, e1, e2] \<Rightarrow> triangleCT (fst e0) (fst e1) (fst e2) | _ \<Rightarrow> emptyCT)"

definition vec3sub :: "Vec3 \<Rightarrow> Vec3 \<Rightarrow> Vec3" where
  "vec3sub u v = (case (u, v) of ((ux, uy, uz), (vx, vy, vz)) \<Rightarrow> (ux - vx, uy - vy, uz - vz))"

definition vec3cross :: "Vec3 \<Rightarrow> Vec3 \<Rightarrow> Vec3" where
  "vec3cross u v =
     (case (u, v) of ((ux, uy, uz), (vx, vy, vz)) \<Rightarrow>
        (uy * vz - uz * vy, uz * vx - ux * vz, ux * vy - uy * vx))"

definition vec3dot :: "Vec3 \<Rightarrow> Vec3 \<Rightarrow> rat" where
  "vec3dot u v = (case (u, v) of ((ux, uy, uz), (vx, vy, vz)) \<Rightarrow> ux * vx + uy * vy + uz * vz)"

definition cellKernel :: "(Cells, unit, Vec3, rat) Kernel" where
  "cellKernel =
     \<lparr>polygonSet = cellsOfPolygon,
      polygonWithHolesSet = (\<lambda>p. cellsOfPolygon (outer_boundary p)),
      polygons_with_holes = polygonsOfCells,
      constrainedTriangulation = triangulationOf,
      to_glm = (\<lambda>plane p. (fst p, snd p, 0)),
      squared_area = (\<lambda>a b c. vec3dot (vec3cross (vec3sub b a) (vec3sub c a))
                                     (vec3cross (vec3sub b a) (vec3sub c a)) / 4),
      facing = (\<lambda>n a b c. vec3dot n (vec3cross (vec3sub b a) (vec3sub c a))),
      defaultColor = 0\<rparr>"

definition freshDetail :: "Vec3 \<Rightarrow> nat \<Rightarrow> (Cells, unit, Vec3) TriangleDetail" where
  "freshDetail normal col =
     \<lparr>mOriginal = \<lparr>color = col, shape = ((0, 0, 0), (4, 0, 0), (0, 4, 0), normal)\<rparr>,
      mOriginalPlane = (),
      mBounds = (True, True),
      mColoredPolys = [(col, (True, True))],
      mColorChanged = False,
      mTriangles = [\<lparr>color = col, shape = ((0, 0, 0), (4, 0, 0), (0, 4, 0), normal)\<rparr>],
      mTrianglesExact = [((0, 0), (4, 0), (0, 4))]\<rparr>"

type_synonym Circle3 = "Vec3 \<times> rat"

definition circle4 :: "Circle3 \<Rightarrow> error + Polygon" where
  "circle4 circle = polygonFromCircle (\<lambda>pgn. True) 4 quarterTurn sample4 crossings4"

lemma wfTriangulation_triangleCT: "wfTriangulation (triangleCT a b c)"
  by (simp add: wfTriangulation_def wfFaces_def triangleCT_def nth3_def)

definition twoStrokes :: "Circle3 Stroke list" where
  "twoStrokes = [AddPolygon polyL 2, AddCircle ((0, 0, 0), 25) 1]"

subsection \<open>Regions by point location\<close>

text \<open>
  A second kernel for the same triangle decides by point location which cells a polygon
  covers: a point is inside when a ray from it to the right crosses the closed boundary an
  odd number of times, and the region is read off at one point in each cell. The set of the
  whole triangle hands out its boundary as the join of the two cells leaves it, with the
  vertex \<open>(2, 2)\<close> in the middle of the long side, which \<open>simplifyPolygon\<close> erases. A cycle
  of four edges is triangulated by the diagonal from its first vertex. \<open>recolouredDetail\<close> is a
  fresh triangle whose polygon sets are stale: it is to be rebuilt from its soup.
\<close>

fun succPairs :: "'a list \<Rightarrow> ('a \<times> 'a) list" where
  "succPairs (x # y # r) = (x, y) # succPairs (y # r)"
| "succPairs r = []"

definition rayCrosses :: "Point2 \<Rightarrow> Segment2 \<Rightarrow> bool" where
  "rayCrosses c s \<longleftrightarrow>
     (snd (fst s) \<le> snd c \<and> snd c < snd (snd s)
        \<and> 0 < cross2 (vsub (snd s) (fst s)) (vsub c (fst s)))
   \<or> (snd (snd s) \<le> snd c \<and> snd c < snd (fst s)
        \<and> cross2 (vsub (snd s) (fst s)) (vsub c (fst s)) < 0)"

definition pointInside :: "Polygon \<Rightarrow> Point2 \<Rightarrow> bool" where
  "pointInside p c \<longleftrightarrow> odd (length (filter (rayCrosses c) (succPairs (p @ [hd p]))))"

definition cellsAt :: "Polygon \<Rightarrow> Cells" where
  "cellsAt p = (pointInside p (2, 2 / 3), pointInside p (2 / 3, 2))"

definition polyJoined :: Polygon where "polyJoined = [(0, 0), (4, 0), (2, 2), (0, 4)]"

definition boundariesOfCells :: "Cells \<Rightarrow> PolygonWithHoles list" where
  "boundariesOfCells r =
     (if r = (True, True) then [\<lparr>outer_boundary = polyJoined, holes = []\<rparr>]
      else if r = (True, False) then [\<lparr>outer_boundary = polyL, holes = []\<rparr>]
      else if r = (False, True) then [\<lparr>outer_boundary = polyU, holes = []\<rparr>]
      else [])"

definition quadCT :: "Point2 \<Rightarrow> Point2 \<Rightarrow> Point2 \<Rightarrow> Point2 \<Rightarrow> ConstrainedTriangulation" where
  "quadCT a b c d =
     \<lparr>all_faces =
        [\<lparr>vertex = (a, b, c), neighbor = (3, 1, 2), is_constrained = (True, False, True),
          is_infinite = False, nestingLevel = 0\<rparr>,
         \<lparr>vertex = (a, c, d), neighbor = (4, 5, 0), is_constrained = (True, True, False),
          is_infinite = False, nestingLevel = 0\<rparr>,
         \<lparr>vertex = (b, a, a), neighbor = (0, 5, 3), is_constrained = (True, False, False),
          is_infinite = True, nestingLevel = 0\<rparr>,
         \<lparr>vertex = (c, b, b), neighbor = (0, 2, 4), is_constrained = (True, False, False),
          is_infinite = True, nestingLevel = 0\<rparr>,
         \<lparr>vertex = (d, c, c), neighbor = (1, 3, 5), is_constrained = (True, False, False),
          is_infinite = True, nestingLevel = 0\<rparr>,
         \<lparr>vertex = (a, d, d), neighbor = (1, 4, 2), is_constrained = (True, False, False),
          is_infinite = True, nestingLevel = 0\<rparr>],
      infinite_face = 2\<rparr>"

definition triangulationOfCycle :: "Segment2 list \<Rightarrow> ConstrainedTriangulation" where
  "triangulationOfCycle cs =
     (case cs of
        [e0, e1, e2] \<Rightarrow> triangleCT (fst e0) (fst e1) (fst e2)
      | [e0, e1, e2, e3] \<Rightarrow> quadCT (fst e0) (fst e1) (fst e2) (fst e3)
      | _ \<Rightarrow> emptyCT)"

definition pointKernel :: "(Cells, unit, Vec3, rat) Kernel" where
  "pointKernel =
     cellKernel\<lparr>polygonSet := cellsAt,
                polygonWithHolesSet := (\<lambda>p. cellsAt (outer_boundary p)),
                polygons_with_holes := boundariesOfCells,
                constrainedTriangulation := triangulationOfCycle\<rparr>"

definition recolouredDetail :: "(Cells, unit, Vec3) TriangleDetail" where
  "recolouredDetail = (freshDetail (0, 0, 1) 0)\<lparr>mColoredPolys := [], mColorChanged := True\<rparr>"

text \<open>
  A vertex on the segment between its neighbours splits one edge into two that are crossed
  by the same rays, one of the two at most: the parity of the crossings is as without it.
\<close>

lemma succPairs_append:
  "succPairs (xs @ y # ys) = succPairs (xs @ [y]) @ succPairs (y # ys)"
  by (induction xs rule: succPairs.induct) simp_all

lemma sign_transfer:
  fixes X Y a b :: rat
  assumes "X * a = Y * b" "0 < a * b"
  shows "0 < X \<longleftrightarrow> 0 < Y" "X < 0 \<longleftrightarrow> Y < 0"
proof -
  have ab: "(0 < a \<and> 0 < b) \<or> (a < 0 \<and> b < 0)" using assms(2) by (simp add: zero_less_mult_iff)
  show "0 < X \<longleftrightarrow> 0 < Y"
    using ab assms(1)
    by (metis mult_less_0_iff mult_pos_pos not_less_iff_gr_or_eq mult_zero_left zero_less_mult_iff mult_neg_neg)
  show "X < 0 \<longleftrightarrow> Y < 0"
    using ab assms(1)
    by (metis mult_less_0_iff mult_pos_pos not_less_iff_gr_or_eq mult_zero_left zero_less_mult_iff mult_neg_neg)
qed

lemma crossing_split:
  assumes "segment_has_on (u, w) v"
  shows "rayCrosses c (u, w) \<longleftrightarrow> (rayCrosses c (u, v) \<noteq> rayCrosses c (v, w))"
proof -
  obtain ux uy vx vy wx wy cx h where
    p: "u = (ux, uy)" "v = (vx, vy)" "w = (wx, wy)" "c = (cx, h)"
    by (cases u; cases v; cases w; cases c) auto
  define X where "X = (wx - ux) * (h - uy) - (wy - uy) * (cx - ux)"
  define Y1 where "Y1 = (vx - ux) * (h - uy) - (vy - uy) * (cx - ux)"
  define Y2 where "Y2 = (wx - vx) * (h - vy) - (wy - vy) * (cx - vx)"
  from assms have col: "(wx - ux) * (vy - uy) - (wy - uy) * (vx - ux) = 0"
    and lo: "min uy wy \<le> vy" and hi: "vy \<le> max uy wy"
    by (simp_all add: segment_has_on_def p cross2_def vsub_def)
  have I1: "X * (vy - uy) = Y1 * (wy - uy)"
    unfolding X_def Y1_def using col by algebra
  have I2: "X * (wy - vy) = Y2 * (wy - uy)"
    unfolding X_def Y2_def using col by algebra
  have r_uw: "rayCrosses c (u, w) \<longleftrightarrow> (uy \<le> h \<and> h < wy \<and> 0 < X) \<or> (wy \<le> h \<and> h < uy \<and> X < 0)"
    by (simp add: rayCrosses_def p cross2_def vsub_def X_def)
  have r_uv: "rayCrosses c (u, v) \<longleftrightarrow> (uy \<le> h \<and> h < vy \<and> 0 < Y1) \<or> (vy \<le> h \<and> h < uy \<and> Y1 < 0)"
    by (simp add: rayCrosses_def p cross2_def vsub_def Y1_def)
  have r_vw: "rayCrosses c (v, w) \<longleftrightarrow> (vy \<le> h \<and> h < wy \<and> 0 < Y2) \<or> (wy \<le> h \<and> h < vy \<and> Y2 < 0)"
    by (simp add: rayCrosses_def p cross2_def vsub_def Y2_def)
  consider (up) "uy \<le> h" "h < wy" | (down) "wy \<le> h" "h < uy"
    | (below) "uy \<le> h" "wy \<le> h" | (above) "h < uy" "h < wy"
    by linarith
  then show ?thesis
  proof cases
    case up
    then have ord: "uy \<le> vy" "vy \<le> wy" using lo hi by (simp_all add: min_def max_def split: if_splits)
    show ?thesis
    proof (cases "h < vy")
      case True
      have "0 < (vy - uy) * (wy - uy)" using up True by (intro mult_pos_pos) simp_all
      from sign_transfer(1)[OF I1 this] show ?thesis
        unfolding r_uw r_uv r_vw using up True ord by auto
    next
      case False
      have "0 < (wy - vy) * (wy - uy)" using up False by (intro mult_pos_pos) simp_all
      from sign_transfer(1)[OF I2 this] show ?thesis
        unfolding r_uw r_uv r_vw using up False ord by auto
    qed
  next
    case down
    then have ord: "wy \<le> vy" "vy \<le> uy" using lo hi by (simp_all add: min_def max_def split: if_splits)
    show ?thesis
    proof (cases "h < vy")
      case True
      have "0 < (wy - vy) * (wy - uy)" using down True by (intro mult_neg_neg) simp_all
      from sign_transfer(2)[OF I2 this] show ?thesis
        unfolding r_uw r_uv r_vw using down True ord by auto
    next
      case False
      have "0 < (vy - uy) * (wy - uy)" using down False by (intro mult_neg_neg) simp_all
      from sign_transfer(2)[OF I1 this] show ?thesis
        unfolding r_uw r_uv r_vw using down False ord by auto
    qed
  next
    case below
    then have "vy \<le> h" using hi by (simp add: max_def split: if_splits)
    then show ?thesis unfolding r_uw r_uv r_vw using below by auto
  next
    case above
    then have "h < vy" using lo by (simp add: min_def split: if_splits)
    then show ?thesis unfolding r_uw r_uv r_vw using above by auto
  qed
qed

lemma pointInside_vertex_on_edge:
  assumes "segment_has_on (u, hd (post @ [hd (pre @ [u])])) v"
  shows "pointInside (pre @ u # post) c = pointInside (pre @ u # v # post) c"
proof -
  define h where "h = hd (pre @ [u])"
  obtain w rest where wr: "post @ [h] = w # rest" by (cases "post @ [h]") auto
  then have w: "hd (post @ [hd (pre @ [u])]) = w" by (simp add: h_def)
  have h1: "hd (pre @ u # post) = h" and h2: "hd (pre @ u # v # post) = h"
    by (cases pre; simp add: h_def)+
  have c1: "(pre @ u # post) @ [hd (pre @ u # post)] = pre @ u # w # rest"
    unfolding h1 using wr by simp
  have c2: "(pre @ u # v # post) @ [hd (pre @ u # v # post)] = pre @ u # v # w # rest"
    unfolding h2 using wr by simp
  have s1: "succPairs (pre @ u # w # rest) = succPairs (pre @ [u]) @ (u, w) # succPairs (w # rest)"
    using succPairs_append[of pre u "w # rest"] by simp
  have s2: "succPairs (pre @ u # v # w # rest)
            = succPairs (pre @ [u]) @ (u, v) # (v, w) # succPairs (w # rest)"
    using succPairs_append[of pre u "v # w # rest"] by simp
  from assms have "segment_has_on (u, w) v" by (simp only: w)
  from crossing_split[OF this, of c] show ?thesis
    unfolding pointInside_def c1 c2 s1 s2 by auto
qed

lemma setsAreUnions_pointKernel: "setsAreUnions pointKernel"
proof -
  let ?u = "\<lambda>r. foldl (\<lambda>pSet poly. sup pSet (polygonWithHolesSet pointKernel poly)) bot
                   (polygons_with_holes pointKernel r)"
  have tt: "?u (True, True) = (True, True)" by code_simp
  have tf: "?u (True, False) = (True, False)" by code_simp
  have ft: "?u (False, True) = (False, True)" by code_simp
  have ff: "?u (False, False) = (False, False)" by code_simp
  have "?u (a, b) = (a, b)" for a b
    using tt tf ft ff by (cases a; cases b) simp_all
  then show ?thesis by (simp add: setsAreUnions_def)
qed

lemma verticesOnEdgesIgnored_pointKernel: "verticesOnEdgesIgnored pointKernel"
  unfolding verticesOnEdgesIgnored_def
  by (auto simp: pointKernel_def cellsAt_def pointInside_vertex_on_edge)

lemma triangulationsWellFormed_pointKernel: "triangulationsWellFormed pointKernel"
proof -
  have e: "wfTriangulation emptyCT"
    by (simp add: wfTriangulation_def wfFaces_def emptyCT_def nth3_def)
  have q: "wfTriangulation (quadCT a b c d)" for a b c d
    by (simp add: wfTriangulation_def wfFaces_def quadCT_def nth3_def)
  have "wfTriangulation (triangulationOfCycle cs)" for cs
    by (simp add: triangulationOfCycle_def wfTriangulation_triangleCT e q split: list.splits)
  then show ?thesis by (simp add: triangulationsWellFormed_def pointKernel_def)
qed

lemma soup_recolouredDetail:
  "soupRegion pointKernel recolouredDetail c = (if c = 0 then (True, True) else bot)"
proof -
  have "polygonSet pointKernel (polygonFromTriangle ((0, 0), (4, 0), (0, 4))) = (True, True)"
    by code_simp
  then show ?thesis
    by (simp add: soupRegion_def recolouredDetail_def freshDetail_def joinPolygons_def)
qed

lemma regionsPartitioned_recolouredDetail: "regionsPartitioned pointKernel recolouredDetail"
proof -
  have "joinPolygons pointKernel (map polygonFromTriangle (mTrianglesExact recolouredDetail))
          = mBounds recolouredDetail" by code_simp
  moreover have "length (mTriangles recolouredDetail) = length (mTrianglesExact recolouredDetail)"
    by (simp add: recolouredDetail_def freshDetail_def)
  moreover have "mColorChanged recolouredDetail" by (simp add: recolouredDetail_def)
  ultimately show ?thesis
    by (simp add: regionsPartitioned_def soupPartitioned_def soup_recolouredDetail)
qed

lemma paintAll_pointKernel:
  "map_sum id (map (\<lambda>s. (mColoredPolys s, mTrianglesExact s)))
     (paintAll pointKernel circle4 twoStrokes recolouredDetail)
   = Inr [([(0, (False, True)), (2, (True, False))],
           [((0, 0), (2, 2), (0, 4)), ((0, 0), (4, 0), (2, 2))]),
          ([(0, (False, False)), (1, (True, True)), (2, (False, False))],
           [((0, 0), (4, 0), (2, 2)), ((0, 0), (2, 2), (0, 4))])]"
  by code_simp

lemma simplifyPolygonSet_pointKernel:
  "map simplifyPolygon (polygons_with_holes pointKernel (True, True))
     = [(True, \<lparr>outer_boundary = polyT, holes = []\<rparr>)]"
  by code_simp

theorem partition_after_every_stroke_witness:
  "setsAreUnions pointKernel \<and> verticesOnEdgesIgnored pointKernel
   \<and> triangulationsWellFormed pointKernel
   \<and> circlesDiscretised circle4 twoStrokes
   \<and> regionsPartitioned pointKernel recolouredDetail
   \<and> (\<exists>states. paintAll pointKernel circle4 twoStrokes recolouredDetail = Inr states
         \<and> length states = length twoStrokes
         \<and> (\<forall>s' \<in> set states. partitioned s' \<and> mBounds s' = mBounds recolouredDetail))"
proof -
  have h4: "circlesDiscretised circle4 twoStrokes"
    using polygonFromCircle_crossings4 by (simp add: circlesDiscretised_def circle4_def)
  show ?thesis
    using partition_after_every_stroke[OF setsAreUnions_pointKernel
        verticesOnEdgesIgnored_pointKernel triangulationsWellFormed_pointKernel h4
        regionsPartitioned_recolouredDetail]
      setsAreUnions_pointKernel verticesOnEdgesIgnored_pointKernel
      triangulationsWellFormed_pointKernel h4 regionsPartitioned_recolouredDetail
    by simp
qed

text \<open>
  C7. When the sphere and the supporting plane have no intersection, or the intersection
  is a single point, \<open>paintSphere\<close> returns the \<open>TriangleDetail\<close> as it was, every field
  unchanged, and no error.
\<close>

theorem paintSphere_degenerate_noop:
  assumes "intersection sphere (mOriginalPlane s) = None
           \<or> (\<exists>p. intersection sphere (mOriginalPlane s) = Some (IsPoint p))"
  shows "paintSphere K intersection polygonOfCircle sphere col s = Inr s"
  using assms by (auto simp: paintSphere_def SphereIntersectionVisitor_def)

text \<open>
  The intersection of a sphere (centre, squared radius) with the plane \<open>z = 0\<close>: nothing
  when the centre is farther away than the radius, a point when it is exactly that far,
  a circle otherwise.
\<close>

definition planeSphere :: "Circle3 \<Rightarrow> unit \<Rightarrow> (Vec3, Circle3) SphereIntersection option" where
  "planeSphere sphere plane =
     (case sphere of ((cx, cy, cz), r2) \<Rightarrow>
        if r2 < cz * cz then None
        else if r2 = cz * cz then Some (IsPoint (cx, cy, 0))
        else Some (IsCircle ((cx, cy, 0), r2 - cz * cz)))"

theorem paintSphere_degenerate_noop_witness:
  "planeSphere ((1, 1, 3), 4) () = None
   \<and> paintSphere cellKernel planeSphere circle4 ((1, 1, 3), 4) 2 (freshDetail (0, 0, 1) 0)
       = Inr (freshDetail (0, 0, 1) 0)
   \<and> planeSphere ((1, 1, 2), 4) () = Some (IsPoint (1, 1, 0))
   \<and> paintSphere cellKernel planeSphere circle4 ((1, 1, 2), 4) 2 (freshDetail (0, 0, 1) 0)
       = Inr (freshDetail (0, 0, 1) 0)"
proof -
  have miss: "planeSphere ((1, 1, 3), 4) () = None"
    by (simp add: planeSphere_def)
  have touch: "planeSphere ((1, 1, 2), 4) () = Some (IsPoint (1, 1, 0))"
    by (simp add: planeSphere_def)
  have a: "paintSphere cellKernel planeSphere circle4 ((1, 1, 3), 4) 2 (freshDetail (0, 0, 1) 0)
             = Inr (freshDetail (0, 0, 1) 0)"
    by (rule paintSphere_degenerate_noop) (simp add: miss)
  have b: "paintSphere cellKernel planeSphere circle4 ((1, 1, 2), 4) 2 (freshDetail (0, 0, 1) 0)
             = Inr (freshDetail (0, 0, 1) 0)"
    by (rule paintSphere_degenerate_noop) (simp add: touch)
  show ?thesis using miss touch a b by simp
qed

text \<open>For comparison, a sphere that cuts the plane in a circle does paint.\<close>

lemma paintSphere_circle_paints:
  "map_sum id mColoredPolys
     (paintSphere cellKernel planeSphere circle4 ((0, 0, 0), 25) 2 (freshDetail (0, 0, 1) 0))
   = Inr [(0, (False, False)), (2, (True, True))]"
  by code_simp

subsection \<open>Which faces become triangles\<close>








text \<open>
  A large triangle with a triangular hole: face 0 is the hole, faces 1 to 6 the ring
  between hole and boundary, faces 7 to 9 the infinite faces. The kernel of this example
  converts a coordinate to the nearest number with a significand of 24 bits (ties to the
  even one), which is what the conversion to \<open>float\<close> gives for the coordinates used here;
  \<open>exponentOf x\<close> is the exponent of the leading bit of \<open>x\<close>. The hole's corner
  \<open>(1 + 2^-30, 1 + 2^-30)\<close> falls onto the triangle's corner \<open>(1, 1)\<close>, and the two ring faces
  with an edge between those two points lose their area.
\<close>

definition exponentOf :: "rat \<Rightarrow> int" where
  "exponentOf x =
     (if 1 \<le> \<bar>x\<bar> then bitlen \<lfloor>\<bar>x\<bar>\<rfloor> - 1 else - bitlen (\<lceil>1 / \<bar>x\<bar>\<rceil> - 1))"

definition roundHalfEven :: "rat \<Rightarrow> int" where
  "roundHalfEven y =
     (let f = \<lfloor>y\<rfloor>; r = y - of_int f
      in if r < 1 / 2 then f else if 1 / 2 < r then f + 1 else if even f then f else f + 1)"

definition toFloat :: "rat \<Rightarrow> rat" where
  "toFloat x =
     (if x = 0 then 0
      else let ulp = (if 23 \<le> exponentOf x then 2 ^ nat (exponentOf x - 23)
                      else 1 / 2 ^ nat (23 - exponentOf x))
           in of_int (roundHalfEven (x / ulp)) * ulp)"

definition ringCT :: ConstrainedTriangulation where
  "ringCT =
     (let A = (1, 1); B = (13, 1); C = (1, 13);
          a = (1 + 1 / 2 ^ 30, 1 + 1 / 2 ^ 30); b = (7, 3); c = (3, 7);
          inner = \<lambda>v n e. \<lparr>vertex = v, neighbor = n, is_constrained = e,
                             is_infinite = False, nestingLevel = 0\<rparr>;
          outer = \<lambda>v n. \<lparr>vertex = v, neighbor = n, is_constrained = (True, False, False),
                           is_infinite = True, nestingLevel = 0\<rparr>
      in \<lparr>all_faces =
            [inner (a, b, c) (4, 6, 2) (True, True, True),
             inner (A, B, b) (4, 2, 7) (False, False, True),
             inner (A, b, a) (0, 5, 1) (True, False, False),
             inner (B, C, c) (6, 4, 8) (False, False, True),
             inner (B, c, b) (0, 1, 3) (True, False, False),
             inner (C, A, a) (2, 6, 9) (False, False, True),
             inner (C, a, c) (0, 3, 5) (True, False, False),
             outer (B, A, A) (1, 8, 9),
             outer (C, B, B) (3, 9, 7),
             outer (A, C, C) (5, 7, 8)],
          infinite_face = 7\<rparr>)"

definition ringPolygon :: PolygonWithHoles where
  "ringPolygon = \<lparr>outer_boundary = [(1, 1), (13, 1), (1, 13)],
                   holes = [[(1 + 1 / 2 ^ 30, 1 + 1 / 2 ^ 30), (3, 7), (7, 3)]]\<rparr>"

definition ringKernel :: "(Cells, unit, Vec3, rat) Kernel" where
  "ringKernel = cellKernel\<lparr>constrainedTriangulation := (\<lambda>cs. ringCT),
                            to_glm := (\<lambda>plane p. (toFloat (fst p), toFloat (snd p), 0))\<rparr>"

lemma toFloat_examples:
  "toFloat (1 + 1 / 2 ^ 30) = 1 \<and> toFloat 13 = 13 \<and> toFloat (1 / 3) = 11184811 / 33554432
   \<and> toFloat (1 + 3 / 2 ^ 24) = 1 + 1 / 2 ^ 22 \<and> toFloat (- 7) = - 7"
  by code_simp


lemma markDomains_ringCT:
  "map_sum id (map nestingLevel \<circ> all_faces) (markDomains ringCT) = Inr [2, 1, 1, 1, 1, 1, 1, 0, 0, 0]"
  by code_simp

lemma addTrianglesFromPolygon_ring:
  "map_sum id mTrianglesExact
     (addTrianglesFromPolygon ringKernel ringPolygon 3 (soupCleared (freshDetail (0, 0, 1) 0)))
   = Inr [((1, 1), (13, 1), (7, 3)), ((13, 1), (1, 13), (3, 7)),
          ((13, 1), (3, 7), (7, 3)), ((1, 13), (1 + 1 / 2 ^ 30, 1 + 1 / 2 ^ 30), (3, 7))]"
  by code_simp


subsection \<open>Soup and back\<close>

text \<open>
  C3. \<open>updateTrianglesFromPolygons\<close> followed by \<open>updatePolysFromTriangles\<close>. For a triangle
  whose normal agrees with the orientation of its plane the colour map comes back as it was.
\<close>

definition roundTrip ::
  "('r::boolean_algebra, 'plane, 'vec, 'f::{zero,linorder}) Kernel \<Rightarrow> ('r, 'plane, 'vec) TriangleDetail
     \<Rightarrow> error + ('r, 'plane, 'vec) TriangleDetail" where
  "roundTrip K s =
     (case updateTrianglesFromPolygons K s of
        Inl e \<Rightarrow> Inl e
      | Inr s' \<Rightarrow> updatePolysFromTriangles K s')"

lemma roundTrip_facing_normal:
  "mColoredPolys (freshDetail (0, 0, 1) 2) = [(2, (True, True))]
   \<and> map_sum id mColoredPolys (roundTrip cellKernel (freshDetail (0, 0, 1) 2))
       = Inr [(2, (True, True))]"
  by code_simp

text \<open>
  C3 fails on the code where the normal points against the orientation of the plane: every
  face is then replaced by \<open>DataTriangle(a, c, b, normal)\<close>, which does not receive the
  colour set just before, and the round trip files the whole area under the constructor's
  colour. Painted in colour 2 before, the triangle is all of colour 0 afterwards.
\<close>

theorem roundTrip_loses_colour:
  "mColoredPolys (freshDetail (0, 0, - 1) 2) = [(2, (True, True))]
   \<and> map_sum id mColoredPolys (roundTrip cellKernel (freshDetail (0, 0, - 1) 2))
       = Inr [(0, (True, True))]"
  by code_simp

section \<open>Boundary synchronisation: \<open>correctSharedVertices\<close> (TriangleDetail.cpp)\<close>

text \<open>
  Here the vertices a polygon set stores matter, not only the region it covers, so the
  set is reached through two operations: the polygons it holds, and the set that holds a
  given list of polygons after \<open>clear()\<close> and one \<open>insert\<close> per polygon. The supporting plane
  maps exact 3D points to its 2D coordinates and back, and \<open>unsetPoint\<close> is what the default
  constructor leaves in a point that is never assigned. A \<open>std::set<Point3>\<close> is a list
  without repetitions in the order of \<open>operator<\<close>, which compares x, then y, then z.

  The file is compiled with or without \<open>NDEBUG\<close>; the flag is the first argument, and with
  it set the assertions on the point sets are not evaluated.
\<close>

type_synonym Segment3 = "Vec3 \<times> Vec3"

record ('r, 'plane) EdgeKernel =
  storedPolygons :: "'r \<Rightarrow> PolygonWithHoles list"
  rebuiltSet :: "PolygonWithHoles list \<Rightarrow> 'r"
  to_2d :: "'plane \<Rightarrow> Vec3 \<Rightarrow> Point2"
  to_3d :: "'plane \<Rightarrow> Point2 \<Rightarrow> Vec3"
  unsetPoint :: Vec3

text \<open>
  \<open>findSharedEdge\<close>: every pair of equal vertices stores the vertex in the next slot of an
  array of two, and the assertion expects exactly two pairs. A third pair is written past
  the end of the array, which is undefined in either build. Without the assertion and with
  fewer than two pairs, the segment is made of slots that were never assigned.
\<close>

definition triVertices :: "Vec3 Tri3 DataTriangle \<Rightarrow> Vec3 list" where
  "triVertices t = (case shape t of (a, b, c, n) \<Rightarrow> [a, b, c])"

definition findSharedEdge ::
  "bool \<Rightarrow> ('r, 'plane) EdgeKernel \<Rightarrow> ('r, 'plane, Vec3) TriangleDetail
     \<Rightarrow> ('r, 'plane, Vec3) TriangleDetail \<Rightarrow> error + Segment3" where
  "findSharedEdge NDEBUG E s other =
     (let found =
            concat (map (\<lambda>myPoint. map (\<lambda>otherPoint. myPoint)
                                        (filter (\<lambda>otherPoint. myPoint = otherPoint)
                                                (triVertices (mOriginal other))))
                        (triVertices (mOriginal s)));
          pointsFound = length found;
          commonPoints = found @ replicate (2 - pointsFound) (unsetPoint E)
      in if 2 < pointsFound then Inl OutOfRange
         else if \<not> NDEBUG \<and> pointsFound \<noteq> 2 then Inl AssertionFailure
         else Inr (commonPoints ! 0, commonPoints ! 1))"

text \<open>
  \<open>Line_2::has_on\<close>: the point satisfies the equation of the line. \<open>findPointsOnEdge\<close>
  collects the vertices of all outer boundaries that lie on the line through the two ends of
  the edge, mapped to 3D.
\<close>

definition lexLess :: "Vec3 \<Rightarrow> Vec3 \<Rightarrow> bool" where
  "lexLess p q =
     (case (p, q) of ((px, py, pz), (qx, qy, qz)) \<Rightarrow>
        px < qx \<or> (px = qx \<and> (py < qy \<or> (py = qy \<and> pz < qz))))"

fun setInsert :: "Vec3 \<Rightarrow> Vec3 list \<Rightarrow> Vec3 list" where
  "setInsert p [] = [p]"
| "setInsert p (q # qs) =
     (if p = q then q # qs else if lexLess p q then p # q # qs else q # setInsert p qs)"

definition line_has_on :: "Line2 \<Rightarrow> Point2 \<Rightarrow> bool" where
  "line_has_on l p \<longleftrightarrow> (case l of (a, b, c) \<Rightarrow> a * fst p + b * snd p + c = 0)"

definition findPointsOnEdge ::
  "('r, 'plane) EdgeKernel \<Rightarrow> ('r, 'plane, Vec3) TriangleDetail \<Rightarrow> Segment3 \<Rightarrow> Vec3 list" where
  "findPointsOnEdge E s edge3 =
     (let edgeLine = line_from_points (to_2d E (mOriginalPlane s) (fst edge3))
                                      (to_2d E (mOriginalPlane s) (snd edge3));
          vertices = concat (map (\<lambda>(col, r). concat (map outer_boundary (storedPolygons E r)))
                                 (mColoredPolys s))
      in foldl (\<lambda>result v. if line_has_on edgeLine v
                             then setInsert (to_3d E (mOriginalPlane s) v) result else result)
               [] vertices)"

text \<open>
  The loop of \<open>addMissingPoints\<close> over the vertices of one outer boundary. \<open>vertIt\<close> is an
  index; the vertex after the last one is the first. When the edge from \<open>vertIt\<close> lies on the
  shared edge and one of the points still missing lies on it, the first such point is
  inserted before the next vertex (at the front of the vector when the next vertex is the
  first one), removed from the missing points, and the loop stays at the same vertex, which
  is then the last vertex in the front case. Each round removes a point or moves on.
\<close>

lemma find_shortens:
  assumes "find P xs = Some x"
  shows "length (remove1 x xs) < length xs"
proof -
  from assms have "x \<in> set xs" by (auto simp: find_Some_iff)
  then have "0 < length xs" by (rule length_pos_if_in_set)
  with \<open>x \<in> set xs\<close> show ?thesis by (simp add: length_remove1)
qed

function splitEdges :: "Segment2 \<Rightarrow> Polygon \<Rightarrow> nat \<Rightarrow> Point2 list \<Rightarrow> Polygon \<times> Point2 list" where
  "splitEdges sharedEdge2D poly vertIt points2D =
     (if \<not> vertIt < length poly then (poly, points2D)
      else if points2D = [] then (poly, points2D)
      else
        let nextVertIt = (if Suc vertIt < length poly then Suc vertIt else 0);
            edgeSegment = (poly ! vertIt, poly ! nextVertIt)
        in if segment_has_on sharedEdge2D (poly ! vertIt)
              \<and> segment_has_on sharedEdge2D (poly ! nextVertIt)
           then (case find (segment_has_on edgeSegment) points2D of
                   Some pt \<Rightarrow>
                     splitEdges sharedEdge2D
                       (take nextVertIt poly @ pt # drop nextVertIt poly)
                       (if nextVertIt = 0 then length poly else nextVertIt - 1)
                       (remove1 pt points2D)
                 | None \<Rightarrow> splitEdges sharedEdge2D poly (Suc vertIt) points2D)
           else splitEdges sharedEdge2D poly (Suc vertIt) points2D)"
  by pat_completeness auto

termination splitEdges
proof (relation "measures [\<lambda>(e, poly, vertIt, pts). length pts,
                           \<lambda>(e, poly, vertIt, pts). length poly - vertIt]", goal_cases)
  case 1
  show ?case by simp
next
  case (2 sharedEdge2D poly vertIt points2D nextVertIt edgeSegment)
  then show ?case by auto
next
  case (3 sharedEdge2D poly vertIt points2D nextVertIt edgeSegment pt)
  from find_shortens[OF 3(6)] show ?case by simp
next
  case (4 sharedEdge2D poly vertIt points2D nextVertIt edgeSegment)
  then show ?case by auto
qed

declare splitEdges.simps [simp del]

text \<open>
  The same list of missing points is carried through all polygons of all colours; each
  colour's set is rebuilt from its polygons. \<open>addMissingPoints\<close> returns at once when nothing
  is missing; otherwise it asserts that every point found an edge and returns true.
\<close>

fun splitPolygons ::
  "Segment2 \<Rightarrow> PolygonWithHoles list \<Rightarrow> Point2 list \<Rightarrow> PolygonWithHoles list \<times> Point2 list" where
  "splitPolygons sharedEdge2D [] points2D = ([], points2D)"
| "splitPolygons sharedEdge2D (polyWithHoles # polys) points2D =
     (case splitEdges sharedEdge2D (outer_boundary polyWithHoles) 0 points2D of
        (poly, points2D') \<Rightarrow>
          (case splitPolygons sharedEdge2D polys points2D' of
             (polys', points2D'') \<Rightarrow>
               (polyWithHoles\<lparr>outer_boundary := poly\<rparr> # polys', points2D'')))"

fun splitColors ::
  "('r, 'plane) EdgeKernel \<Rightarrow> Segment2 \<Rightarrow> (nat \<times> 'r) list \<Rightarrow> Point2 list
     \<Rightarrow> (nat \<times> 'r) list \<times> Point2 list" where
  "splitColors E sharedEdge2D [] points2D = ([], points2D)"
| "splitColors E sharedEdge2D ((col, r) # rest) points2D =
     (case splitPolygons sharedEdge2D (storedPolygons E r) points2D of
        (polys, points2D') \<Rightarrow>
          (case splitColors E sharedEdge2D rest points2D' of
             (rest', points2D'') \<Rightarrow> ((col, rebuiltSet E polys) # rest', points2D'')))"

definition addMissingPoints ::
  "bool \<Rightarrow> ('r, 'plane) EdgeKernel \<Rightarrow> ('r, 'plane, Vec3) TriangleDetail \<Rightarrow> Vec3 list \<Rightarrow> Vec3 list
     \<Rightarrow> Segment3 \<Rightarrow> error + bool \<times> ('r, 'plane, Vec3) TriangleDetail" where
  "addMissingPoints NDEBUG E s myPoints theirPoints sharedEdge =
     (let missingPoints = filter (\<lambda>p. p \<notin> set myPoints) theirPoints
      in if missingPoints = [] then Inr (False, s)
         else
           let points2D = map (to_2d E (mOriginalPlane s)) missingPoints;
               sharedEdge2D = (to_2d E (mOriginalPlane s) (fst sharedEdge),
                               to_2d E (mOriginalPlane s) (snd sharedEdge))
           in case splitColors E sharedEdge2D (mColoredPolys s) points2D of
                (polys, left) \<Rightarrow>
                  if \<not> NDEBUG \<and> left \<noteq> [] then Inl AssertionFailure
                  else Inr (True, s\<lparr>mColoredPolys := polys\<rparr>))"

definition correctSharedVertices ::
  "bool \<Rightarrow> ('r, 'plane) EdgeKernel \<Rightarrow> ('r, 'plane, Vec3) TriangleDetail
     \<Rightarrow> ('r, 'plane, Vec3) TriangleDetail
     \<Rightarrow> error + (bool \<times> bool) \<times> ('r, 'plane, Vec3) TriangleDetail \<times> ('r, 'plane, Vec3) TriangleDetail" where
  "correctSharedVertices NDEBUG E s other =
     (case findSharedEdge NDEBUG E s other of
        Inl e \<Rightarrow> Inl e
      | Inr sharedEdge \<Rightarrow>
          let myPoints = findPointsOnEdge E s sharedEdge;
              theirPoints = findPointsOnEdge E other sharedEdge
          in if \<not> NDEBUG \<and> (length myPoints < 2 \<or> length theirPoints < 2) then Inl AssertionFailure
             else case addMissingPoints NDEBUG E s myPoints theirPoints sharedEdge of
                    Inl e \<Rightarrow> Inl e
                  | Inr (myPointsAdded, s') \<Rightarrow>
                      (case addMissingPoints NDEBUG E other theirPoints myPoints sharedEdge of
                         Inl e \<Rightarrow> Inl e
                       | Inr (otherPointsAdded, other') \<Rightarrow>
                           Inr ((myPointsAdded, otherPointsAdded), s', other')))"


subsection \<open>Two triangles in one plane\<close>

text \<open>
  Both triangles lie in the plane \<open>z = 0\<close> and share the edge from \<open>(0,0,0)\<close> to \<open>(4,0,0)\<close>. The
  one below was painted with a brush that crossed the edge at \<open>x = 1\<close> and \<open>x = 3\<close>; the one
  above is a single polygon, given with the vertex it starts from.
\<close>

definition flatKernel :: "(PolygonWithHoles list, unit) EdgeKernel" where
  "flatKernel =
     \<lparr>storedPolygons = (\<lambda>r. r), rebuiltSet = (\<lambda>polys. polys),
      to_2d = (\<lambda>plane p. case p of (x, y, z) \<Rightarrow> (x, y)),
      to_3d = (\<lambda>plane p. (fst p, snd p, 0)),
      unsetPoint = (0, 0, 0)\<rparr>"

definition flatDetail ::
  "Vec3 \<times> Vec3 \<times> Vec3 \<Rightarrow> (nat \<times> Polygon list) list
     \<Rightarrow> (PolygonWithHoles list, unit, Vec3) TriangleDetail" where
  "flatDetail tri polys =
     (case tri of (a, b, c) \<Rightarrow>
        \<lparr>mOriginal = \<lparr>color = 0, shape = (a, b, c, (0, 0, 1))\<rparr>,
         mOriginalPlane = (),
         mBounds = [\<lparr>outer_boundary = [to_2d flatKernel () a, to_2d flatKernel () b,
                                         to_2d flatKernel () c], holes = []\<rparr>],
         mColoredPolys = map (\<lambda>(col, ps). (col, map (\<lambda>p. \<lparr>outer_boundary = p, holes = []\<rparr>) ps)) polys,
         mColorChanged = False,
         mTriangles = [],
         mTrianglesExact = []\<rparr>)"

definition strokedBelow :: "(PolygonWithHoles list, unit, Vec3) TriangleDetail" where
  "strokedBelow =
     flatDetail ((0, 0, 0), (2, - 3, 0), (4, 0, 0))
       [(0, [[(0, 0), (2, - 3), (4, 0), (3, 0), (2, - 1), (1, 0)]]),
        (1, [[(1, 0), (2, - 1), (3, 0)]])]"

definition plainAbove :: "Polygon \<Rightarrow> (PolygonWithHoles list, unit, Vec3) TriangleDetail" where
  "plainAbove boundary = flatDetail ((4, 0, 0), (0, 4, 0), (0, 0, 0)) [(0, [boundary])]"

lemma sharedEdge_example:
  "findSharedEdge False flatKernel strokedBelow (plainAbove [(4, 0), (0, 4), (0, 0)])
     = Inr ((0, 0, 0), (4, 0, 0))
   \<and> findSharedEdge True flatKernel strokedBelow (plainAbove [(4, 0), (0, 4), (0, 0)])
     = Inr ((0, 0, 0), (4, 0, 0))"
  by code_simp

text \<open>
  When the shared edge is not the closing edge of the polygon above, both crossing points
  are inserted and a second call changes nothing.
\<close>

lemma sync_when_edge_is_inner:
  "correctSharedVertices True flatKernel strokedBelow (plainAbove [(0, 0), (4, 0), (0, 4)])
     = Inr ((False, True), strokedBelow, plainAbove [(0, 0), (1, 0), (3, 0), (4, 0), (0, 4)])
   \<and> correctSharedVertices True flatKernel strokedBelow
         (plainAbove [(0, 0), (1, 0), (3, 0), (4, 0), (0, 4)])
     = Inr ((False, False), strokedBelow, plainAbove [(0, 0), (1, 0), (3, 0), (4, 0), (0, 4)])"
  by code_simp

text \<open>
  C2 fails on the code when the shared edge is the closing edge of the polygon (from its
  last vertex to its first). After \<open>(1,0)\<close> was inserted at the front, the loop goes on from
  the last vertex and never looks at the new edge from \<open>(1,0)\<close> to \<open>(4,0)\<close>: \<open>(3,0)\<close> stays
  missing. With assertions the first call stops at \<open>assert(points2D.empty())\<close>; without them
  it returns with different point sets on the two sides, and the second call inserts
  \<open>(3,0)\<close> and returns \<open>(false, true)\<close>.
\<close>

theorem sync_misses_point_on_closing_edge:
  "findPointsOnEdge flatKernel strokedBelow ((0, 0, 0), (4, 0, 0))
     = [(0, 0, 0), (1, 0, 0), (3, 0, 0), (4, 0, 0)]
   \<and> findPointsOnEdge flatKernel (plainAbove [(4, 0), (0, 4), (0, 0)]) ((0, 0, 0), (4, 0, 0))
     = [(0, 0, 0), (4, 0, 0)]
   \<and> correctSharedVertices False flatKernel strokedBelow (plainAbove [(4, 0), (0, 4), (0, 0)])
     = Inl AssertionFailure
   \<and> correctSharedVertices True flatKernel strokedBelow (plainAbove [(4, 0), (0, 4), (0, 0)])
     = Inr ((False, True), strokedBelow, plainAbove [(1, 0), (4, 0), (0, 4), (0, 0)])
   \<and> findPointsOnEdge flatKernel (plainAbove [(1, 0), (4, 0), (0, 4), (0, 0)]) ((0, 0, 0), (4, 0, 0))
     = [(0, 0, 0), (1, 0, 0), (4, 0, 0)]
   \<and> correctSharedVertices True flatKernel strokedBelow (plainAbove [(1, 0), (4, 0), (0, 4), (0, 0)])
     = Inr ((False, True), strokedBelow, plainAbove [(1, 0), (3, 0), (4, 0), (0, 4), (0, 0)])"
  by code_simp

end
